theory Spec2Isabelle
  imports Main
begin

section \<open>Data model of reclaimer.h\<close>

text \<open>
  A \<^verbatim>\<open>void*\<close> is an address, with \<open>0\<close> for \<^verbatim>\<open>nullptr\<close>. The target of a
  \<^verbatim>\<open>std::function<void(void*)>\<close> is external to the repository: it is identified by a
  number, and an empty \<^verbatim>\<open>std::function\<close> is \<open>None\<close>.
\<close>

type_synonym addr = nat
type_synonym destroyer = nat

abbreviation (input) nullptr :: addr where
  "nullptr \<equiv> 0"

text \<open>
  A \<^verbatim>\<open>HazardPointer*\<close> identifies a slot of the linked list. The list is held head first,
  the \<^verbatim>\<open>next\<close> link of an element being the rest of the list; the link is written once,
  before the slot is published, so a slot keeps its distance to the end of the list for ever
  and that distance is its reference.
\<close>

type_synonym hp_ref = nat
type_synonym tid = nat

text \<open>
  \<^verbatim>\<open>struct HazardPointer\<close>: the constructor sets \<^verbatim>\<open>ptr\<close> to null; the
  \<^verbatim>\<open>std::atomic_flag\<close> is taken to start clear.
\<close>

record HazardPointer =
  flag :: bool
  ptr :: addr

definition HazardPointer_ctor :: HazardPointer where
  "HazardPointer_ctor = \<lparr>flag = False, ptr = nullptr\<rparr>"

text \<open>
  \<^verbatim>\<open>struct HazardPointerList\<close>: \<open>slots\<close> is the chain \<^verbatim>\<open>head, head->next, ...\<close>;
  \<open>size_count\<close> is the member \<^verbatim>\<open>size\<close>. The constructor allocates the first slot and
  names no initial value for \<^verbatim>\<open>size\<close>: it is taken to be zero-initialised. The counter
  is a \<^verbatim>\<open>size_t\<close>; it counts heap objects of at least 24 bytes, so it cannot reach
  \<open>2 ^ 62\<close> and neither it nor four times it wraps around.
\<close>

record HazardPointerList =
  slots :: "HazardPointer list"
  size_count :: nat

definition HazardPointerList_ctor :: HazardPointerList where
  "HazardPointerList_ctor = \<lparr>slots = [HazardPointer_ctor], size_count = 0\<rparr>"

definition get_size :: "HazardPointerList \<Rightarrow> nat" where
  "get_size l = size_count l"

text \<open>\<^verbatim>\<open>const int kCoefficient = 4 + 1 / 4;\<close> in \<^verbatim>\<open>int\<close> arithmetic.\<close>

definition kCoefficient :: int where
  "kCoefficient = 4 + 1 div 4"

text \<open>
  \<^verbatim>\<open>struct ReclaimNode\<close>; its \<^verbatim>\<open>next\<close> link is the rest of the pool's list.
\<close>

record ReclaimNode =
  node_ptr :: addr
  delete_func :: "destroyer option"

definition ReclaimNode_ctor :: ReclaimNode where
  "ReclaimNode_ctor = \<lparr>node_ptr = nullptr, delete_func = None\<rparr>"

text \<open>
  The members of \<^verbatim>\<open>class Reclaimer\<close> (written without the trailing underscore).
  \<^verbatim>\<open>reclaim_map_\<close> is an \<^verbatim>\<open>unordered_map\<close> with unique keys: an association list
  whose order stands for the iteration order. The reference member
  \<^verbatim>\<open>hazard_pointer_list_\<close> is the registry passed to every operation.
\<close>

record Reclaimer =
  hazard_pointers :: "hp_ref list"
  reclaim_map :: "(addr \<times> ReclaimNode) list"
  reclaim_pool :: "ReclaimNode list"

text \<open>What stops the program, or is undefined behaviour, is a value.\<close>

datatype error =
  AssertionFailed
  | NullDereference
  | InvalidPointer
  | OutOfBounds
  | BadFunctionCall

text \<open>
  The accesses to the shared slots, the growth of the registry and the calls of destroyers,
  in program order.
\<close>

datatype event =
  LoadPtr hp_ref
  | StorePtr hp_ref addr
  | TestAndSet hp_ref
  | Clear hp_ref
  | NewSlot hp_ref
  | FetchAddSize
  | CasHead bool
  | Invoke destroyer addr
  | Yield

section \<open>ReclaimPool\<close>

definition ReclaimPool_ctor :: "ReclaimNode list" where
  "ReclaimPool_ctor = [ReclaimNode_ctor]"

definition Push :: "ReclaimNode \<Rightarrow> ReclaimNode list \<Rightarrow> ReclaimNode list" where
  "Push node pool = node # pool"

text \<open>\<^verbatim>\<open>Pop\<close> reads \<^verbatim>\<open>head->next\<close>: on an empty pool that is a null dereference.\<close>

fun Pop :: "ReclaimNode list \<Rightarrow> error + (ReclaimNode \<times> ReclaimNode list)" where
  "Pop [] = Inl NullDereference"
| "Pop [h] = Inr (ReclaimNode_ctor, [h])"
| "Pop (temp # rest) = Inr (temp, rest)"

datatype pool_op = PushOp ReclaimNode | PopOp

fun pool_step :: "pool_op \<Rightarrow> ReclaimNode list \<Rightarrow> error + ReclaimNode list" where
  "pool_step (PushOp node) pool = Inr (Push node pool)"
| "pool_step PopOp pool = (case Pop pool of Inl e \<Rightarrow> Inl e | Inr (node, pool') \<Rightarrow> Inr pool')"

fun pool_run :: "pool_op list \<Rightarrow> ReclaimNode list \<Rightarrow> error + ReclaimNode list" where
  "pool_run [] pool = Inr pool"
| "pool_run (p # ps) pool = (case pool_step p pool of Inl e \<Rightarrow> Inl e | Inr pool' \<Rightarrow> pool_run ps pool')"

section \<open>Slots by reference\<close>

text \<open>
  \<^verbatim>\<open>p->...\<close> for a slot pointer \<open>p\<close>: the slot at distance \<open>r\<close> from the end of the
  chain. A reference to no slot of the chain has no slot to read.
\<close>

fun hp_at :: "HazardPointer list \<Rightarrow> hp_ref \<Rightarrow> HazardPointer option" where
  "hp_at [] r = None"
| "hp_at (p # rest) r = (if r = length rest then Some p else hp_at rest r)"

fun hp_update :: "(HazardPointer \<Rightarrow> HazardPointer) \<Rightarrow> hp_ref \<Rightarrow> HazardPointer list \<Rightarrow> HazardPointer list" where
  "hp_update f r [] = []"
| "hp_update f r (p # rest) = (if r = length rest then f p # rest else p # hp_update f r rest)"

text \<open>
  An \<^verbatim>\<open>int\<close> compared with, or used as, a \<^verbatim>\<open>size_t\<close> is converted to 64 unsigned bits.
\<close>

definition to_size_t :: "int \<Rightarrow> nat" where
  "to_size_t i = nat (i mod 2 ^ 64)"

section \<open>TryAcquireHazardPointer, MarkHazard, GetHazardPtr\<close>

text \<open>
  The first loop of \<^verbatim>\<open>TryAcquireHazardPointer\<close>: from the head, test-and-set every flag
  until one was clear. A flag that was set stays set. \<open>find_idle\<close> is the slot claimed,
  \<open>claim_trace\<close> the test-and-sets made.
\<close>

fun find_idle :: "HazardPointer list \<Rightarrow> hp_ref option" where
  "find_idle [] = None"
| "find_idle (p # rest) = (if \<not> flag p then Some (length rest) else find_idle rest)"

fun claim_trace :: "HazardPointer list \<Rightarrow> event list" where
  "claim_trace [] = []"
| "claim_trace (p # rest) =
     TestAndSet (length rest) # (if \<not> flag p then [] else claim_trace rest)"

text \<open>
  The second loop: \<^verbatim>\<open>compare_exchange_weak\<close> until it succeeds. With no other thread
  running it fails only spuriously; \<open>k\<close> is the number of times it does.
\<close>

fun cas_loop :: "nat \<Rightarrow> event list" where
  "cas_loop 0 = [CasHead True]"
| "cas_loop (Suc k) = CasHead False # cas_loop k"

definition TryAcquireHazardPointer ::
  "int \<Rightarrow> nat \<Rightarrow> HazardPointerList \<Rightarrow> Reclaimer
    \<Rightarrow> error + (HazardPointerList \<times> Reclaimer \<times> event list)" where
  "TryAcquireHazardPointer index k l rc =
     (if \<not> to_size_t index \<le> length (hazard_pointers rc) then Inl AssertionFailed
      else if to_size_t index < length (hazard_pointers rc) then Inr (l, rc, [])
      else if slots l = [] then Inl NullDereference
      else (case find_idle (slots l) of
          Some hp \<Rightarrow>
            Inr (l\<lparr>slots := hp_update (\<lambda>p. p\<lparr>flag := True\<rparr>) hp (slots l)\<rparr>,
                 rc\<lparr>hazard_pointers := hazard_pointers rc @ [hp]\<rparr>,
                 claim_trace (slots l))
        | None \<Rightarrow>
            (let new_head = length (slots l) in
             Inr (l\<lparr>slots := HazardPointer_ctor\<lparr>flag := True\<rparr> # slots l,
                    size_count := size_count l + 1\<rparr>,
                  rc\<lparr>hazard_pointers := hazard_pointers rc @ [new_head]\<rparr>,
                  claim_trace (slots l)
                    @ [NewSlot new_head, TestAndSet new_head, FetchAddSize] @ cas_loop k))))"

text \<open>\<^verbatim>\<open>hazard_pointers_[index]\<close>, then the slot it points to.\<close>

definition acquired_slot :: "int \<Rightarrow> HazardPointerList \<Rightarrow> Reclaimer \<Rightarrow> error + hp_ref" where
  "acquired_slot index l rc =
     (if \<not> to_size_t index < length (hazard_pointers rc) then Inl OutOfBounds
      else (case hp_at (slots l) (hazard_pointers rc ! to_size_t index) of
          None \<Rightarrow> Inl InvalidPointer
        | Some p \<Rightarrow> Inr (hazard_pointers rc ! to_size_t index)))"

definition MarkHazard ::
  "int \<Rightarrow> addr \<Rightarrow> nat \<Rightarrow> HazardPointerList \<Rightarrow> Reclaimer
    \<Rightarrow> error + (HazardPointerList \<times> Reclaimer \<times> event list)" where
  "MarkHazard index a k l rc =
     (case TryAcquireHazardPointer index k l rc of
        Inl e \<Rightarrow> Inl e
      | Inr (l', rc', es) \<Rightarrow>
          (case acquired_slot index l' rc' of
             Inl e \<Rightarrow> Inl e
           | Inr hp \<Rightarrow>
               Inr (l'\<lparr>slots := hp_update (\<lambda>p. p\<lparr>ptr := a\<rparr>) hp (slots l')\<rparr>, rc',
                    es @ [StorePtr hp a])))"

definition GetHazardPtr ::
  "int \<Rightarrow> nat \<Rightarrow> HazardPointerList \<Rightarrow> Reclaimer
    \<Rightarrow> error + (addr \<times> HazardPointerList \<times> Reclaimer \<times> event list)" where
  "GetHazardPtr index k l rc =
     (case TryAcquireHazardPointer index k l rc of
        Inl e \<Rightarrow> Inl e
      | Inr (l', rc', es) \<Rightarrow>
          (case acquired_slot index l' rc' of
             Inl e \<Rightarrow> Inl e
           | Inr hp \<Rightarrow>
               (case hp_at (slots l') hp of
                  None \<Rightarrow> Inl InvalidPointer
                | Some p \<Rightarrow> Inr (ptr p, l', rc', es @ [LoadPtr hp]))))"

section \<open>ReclaimLater\<close>

text \<open>
  \<^verbatim>\<open>unordered_map::insert\<close> leaves the map as it is when the key is there already.
\<close>

definition map_insert :: "addr \<times> ReclaimNode \<Rightarrow> (addr \<times> ReclaimNode) list \<Rightarrow> (addr \<times> ReclaimNode) list" where
  "map_insert kv m = (if fst kv \<in> fst ` set m then m else m @ [kv])"

definition ReclaimLater ::
  "addr \<Rightarrow> destroyer option \<Rightarrow> HazardPointerList \<Rightarrow> Reclaimer
    \<Rightarrow> error + (HazardPointerList \<times> Reclaimer \<times> event list)" where
  "ReclaimLater a func l rc =
     (case Pop (reclaim_pool rc) of
        Inl e \<Rightarrow> Inl e
      | Inr (new_node, pool') \<Rightarrow>
          Inr (l,
               rc\<lparr>reclaim_pool := pool',
                  reclaim_map :=
                    map_insert (a, new_node\<lparr>node_ptr := a, delete_func := func\<rparr>) (reclaim_map rc)\<rparr>,
               []))"

section \<open>ReclaimNoHazardPointer\<close>

text \<open>
  The scan: \<open>not_allow_delete_set\<close> is the set built by the \<^verbatim>\<open>do ... while (p)\<close> loop
  from the head, \<open>scan_trace\<close> the loads it makes.
\<close>

fun not_allow_delete_set :: "HazardPointer list \<Rightarrow> addr set" where
  "not_allow_delete_set [] = {}"
| "not_allow_delete_set (p # rest) =
     (if nullptr \<noteq> ptr p then insert (ptr p) (not_allow_delete_set rest)
      else not_allow_delete_set rest)"

fun scan_trace :: "HazardPointer list \<Rightarrow> event list" where
  "scan_trace [] = []"
| "scan_trace (p # rest) = LoadPtr (length rest) # scan_trace rest"

text \<open>
  The loop over the map: the entries kept, the pool, and the destroyers called. Calling an
  empty \<^verbatim>\<open>std::function\<close> throws.
\<close>

fun reclaim_loop ::
  "addr set \<Rightarrow> (addr \<times> ReclaimNode) list \<Rightarrow> ReclaimNode list
    \<Rightarrow> error + ((addr \<times> ReclaimNode) list \<times> ReclaimNode list \<times> event list)" where
  "reclaim_loop S [] pool = Inr ([], pool, [])"
| "reclaim_loop S ((a, node) # m) pool =
     (if a \<notin> S then
        (case delete_func node of
           None \<Rightarrow> Inl BadFunctionCall
         | Some f \<Rightarrow>
             (case reclaim_loop S m (Push node pool) of
                Inl e \<Rightarrow> Inl e
              | Inr (m', pool', es) \<Rightarrow> Inr (m', pool', Invoke f (node_ptr node) # es)))
      else
        (case reclaim_loop S m pool of
           Inl e \<Rightarrow> Inl e
         | Inr (m', pool', es) \<Rightarrow> Inr ((a, node) # m', pool', es)))"

definition ReclaimNoHazardPointer ::
  "HazardPointerList \<Rightarrow> Reclaimer \<Rightarrow> error + (HazardPointerList \<times> Reclaimer \<times> event list)" where
  "ReclaimNoHazardPointer l rc =
     (if length (reclaim_map rc) < to_size_t kCoefficient * get_size l then Inr (l, rc, [])
      else if slots l = [] then Inl NullDereference
      else (case reclaim_loop (not_allow_delete_set (slots l)) (reclaim_map rc) (reclaim_pool rc) of
          Inl e \<Rightarrow> Inl e
        | Inr (m', pool', es) \<Rightarrow>
            Inr (l, rc\<lparr>reclaim_map := m', reclaim_pool := pool'\<rparr>, scan_trace (slots l) @ es)))"

section \<open>The destructor of Reclaimer\<close>

text \<open>\<^verbatim>\<open>Hazard(ptr)\<close> and the loads it makes before it returns.\<close>

fun Hazard :: "HazardPointer list \<Rightarrow> addr \<Rightarrow> bool" where
  "Hazard [] a = False"
| "Hazard (p # rest) a = (if ptr p = a then True else Hazard rest a)"

fun Hazard_trace :: "HazardPointer list \<Rightarrow> addr \<Rightarrow> event list" where
  "Hazard_trace [] a = []"
| "Hazard_trace (p # rest) a =
     LoadPtr (length rest) # (if ptr p = a then [] else Hazard_trace rest a)"

text \<open>First loop: the assertion on each acquired slot, then its flag is cleared.\<close>

fun hand_over :: "hp_ref list \<Rightarrow> HazardPointer list \<Rightarrow> error + (HazardPointer list \<times> event list)" where
  "hand_over [] sl = Inr (sl, [])"
| "hand_over (hp # hps) sl =
     (case hp_at sl hp of
        None \<Rightarrow> Inl InvalidPointer
      | Some p \<Rightarrow>
          if nullptr \<noteq> ptr p then Inl AssertionFailed
          else (case hand_over hps (hp_update (\<lambda>p. p\<lparr>flag := False\<rparr>) hp sl) of
              Inl e \<Rightarrow> Inl e
            | Inr (sl', es) \<Rightarrow> Inr (sl', LoadPtr hp # Clear hp # es)))"

text \<open>
  The set the scan is meant to build, in the words of the specification: the pointer values
  that are not null and stand in a slot reachable from the head.
\<close>

definition published_addresses :: "HazardPointer list \<Rightarrow> addr set" where
  "published_addresses sl = {a. a \<noteq> nullptr \<and> (\<exists>p\<in>set sl. ptr p = a)}"

section \<open>Threads over one registry\<close>

text \<open>
  \<^verbatim>\<open>GetInstance\<close> gives each thread its own Reclaimer, built on the thread's first call
  and destroyed when the thread ends. Calls of the threads are taken one at a time.
\<close>

definition Reclaimer_ctor :: Reclaimer where
  "Reclaimer_ctor = \<lparr>hazard_pointers = [], reclaim_map = [], reclaim_pool = ReclaimPool_ctor\<rparr>"

record system =
  hazard_pointer_list :: HazardPointerList
  reclaimers :: "tid \<Rightarrow> Reclaimer option"
  history :: "(tid \<times> event) list"

definition system_init :: system where
  "system_init = \<lparr>hazard_pointer_list = HazardPointerList_ctor, reclaimers = (\<lambda>t. None), history = []\<rparr>"

definition GetInstance :: "system \<Rightarrow> tid \<Rightarrow> Reclaimer" where
  "GetInstance s t = (case reclaimers s t of None \<Rightarrow> Reclaimer_ctor | Some rc \<Rightarrow> rc)"

datatype call =
  CallMarkHazard tid int addr nat
  | CallGetHazardPtr tid int nat
  | CallReclaimLater tid addr "destroyer option"
  | CallReclaimNoHazardPointer tid

definition commit ::
  "system \<Rightarrow> tid \<Rightarrow> error + (HazardPointerList \<times> Reclaimer \<times> event list) \<Rightarrow> error + system" where
  "commit s t res =
     (case res of
        Inl e \<Rightarrow> Inl e
      | Inr (l, rc, es) \<Rightarrow>
          Inr (s\<lparr>hazard_pointer_list := l, reclaimers := (reclaimers s)(t := Some rc),
                 history := history s @ map (Pair t) es\<rparr>))"

fun exec_call :: "call \<Rightarrow> system \<Rightarrow> error + system" where
  "exec_call (CallMarkHazard t index a k) s =
     commit s t (MarkHazard index a k (hazard_pointer_list s) (GetInstance s t))"
| "exec_call (CallGetHazardPtr t index k) s =
     commit s t
       (case GetHazardPtr index k (hazard_pointer_list s) (GetInstance s t) of
          Inl e \<Rightarrow> Inl e
        | Inr (a, res) \<Rightarrow> Inr res)"
| "exec_call (CallReclaimLater t a func) s =
     commit s t (ReclaimLater a func (hazard_pointer_list s) (GetInstance s t))"
| "exec_call (CallReclaimNoHazardPointer t) s =
     commit s t (ReclaimNoHazardPointer (hazard_pointer_list s) (GetInstance s t))"

fun exec_calls :: "call list \<Rightarrow> system \<Rightarrow> error + system" where
  "exec_calls [] s = Inr s"
| "exec_calls (c # cs) s = (case exec_call c s of Inl e \<Rightarrow> Inl e | Inr s' \<Rightarrow> exec_calls cs s')"

section \<open>The destructor of Reclaimer among the other threads\<close>

definition log_events :: "tid \<Rightarrow> event list \<Rightarrow> system \<Rightarrow> system" where
  "log_events t es s = s\<lparr>history := history s @ map (Pair t) es\<rparr>"

text \<open>
  \<^verbatim>\<open>while (Hazard(it->first)) std::this_thread::yield();\<close> The other threads run while the
  thread yields: \<open>sched\<close> lists, yield after yield, the calls they make then; when the list is
  used up they make no call any more. \<^verbatim>\<open>Hazard\<close> reads the head slot before it tests the
  pointer to it. A loop that does not end has no value.
\<close>

partial_function (option) wait_no_hazard ::
  "tid \<Rightarrow> addr \<Rightarrow> call list list \<Rightarrow> system \<Rightarrow> (error + call list list \<times> system) option" where
  "wait_no_hazard t a sched s =
     (if slots (hazard_pointer_list s) = [] then Some (Inl NullDereference)
      else if Hazard (slots (hazard_pointer_list s)) a then
        (case exec_calls (case sched of [] \<Rightarrow> [] | cs # rest \<Rightarrow> cs)
                (log_events t (Hazard_trace (slots (hazard_pointer_list s)) a @ [Yield]) s) of
           Inl e \<Rightarrow> Some (Inl e)
         | Inr s' \<Rightarrow> wait_no_hazard t a (tl sched) s')
      else Some (Inr (sched, log_events t (Hazard_trace (slots (hazard_pointer_list s)) a) s)))"

text \<open>Second loop: wait, call the destroyer, delete the node, erase the entry.\<close>

fun drain ::
  "tid \<Rightarrow> (addr \<times> ReclaimNode) list \<Rightarrow> call list list \<Rightarrow> system \<Rightarrow> (error + system) option" where
  "drain t [] sched s = Some (Inr s)"
| "drain t ((a, node) # m) sched s =
     (case wait_no_hazard t a sched s of
        None \<Rightarrow> None
      | Some (Inl e) \<Rightarrow> Some (Inl e)
      | Some (Inr (sched', s')) \<Rightarrow>
          (case delete_func node of
             None \<Rightarrow> Some (Inl BadFunctionCall)
           | Some f \<Rightarrow> drain t m sched' (log_events t [Invoke f (node_ptr node)] s')))"

text \<open>
  \<^verbatim>\<open>~Reclaimer()\<close> of thread \<open>t\<close>: \<open>None\<close> when it never returns. A thread that made
  no call has no Reclaimer to destroy. Once its slots are handed over the thread holds none;
  what is left of its Reclaimer is the map the second loop goes through.
\<close>

definition Reclaimer_dtor :: "tid \<Rightarrow> call list list \<Rightarrow> system \<Rightarrow> (error + system) option" where
  "Reclaimer_dtor t sched s =
     (case reclaimers s t of
        None \<Rightarrow> Some (Inr s)
      | Some rc \<Rightarrow>
          (case hand_over (hazard_pointers rc) (slots (hazard_pointer_list s)) of
             Inl e \<Rightarrow> Some (Inl e)
           | Inr (sl', es) \<Rightarrow>
               drain t (reclaim_map rc) sched
                 (s\<lparr>hazard_pointer_list := (hazard_pointer_list s)\<lparr>slots := sl'\<rparr>,
                    reclaimers := (reclaimers s)(t := None),
                    history := history s @ map (Pair t) es\<rparr>)))"

text \<open>
  What the threads do: a call, or the end of a thread, with the calls the other threads make
  while it waits. A thread does not end while another one waits.
\<close>

datatype action =
  Call call
  | ThreadExit tid "call list list"

fun exec :: "action \<Rightarrow> system \<Rightarrow> (error + system) option" where
  "exec (Call c) s = Some (exec_call c s)"
| "exec (ThreadExit t sched) s = Reclaimer_dtor t sched s"

fun run :: "action list \<Rightarrow> system \<Rightarrow> (error + system) option" where
  "run [] s = Some (Inr s)"
| "run (c # cs) s =
     (case exec c s of
        None \<Rightarrow> None
      | Some (Inl e) \<Rightarrow> Some (Inl e)
      | Some (Inr s') \<Rightarrow> run cs s')"

text \<open>
  \<^verbatim>\<open>ReclaimNoHazardPointer\<close> of thread \<open>t\<close> with calls of other threads between its two
  loops: after the last slot is read, before the first entry of the map is looked at.
\<close>

definition ReclaimNoHazardPointer_racing :: "tid \<Rightarrow> call list \<Rightarrow> system \<Rightarrow> error + system" where
  "ReclaimNoHazardPointer_racing t others s =
     (let rc = GetInstance s t; l = hazard_pointer_list s in
      if length (reclaim_map rc) < to_size_t kCoefficient * get_size l
      then Inr (s\<lparr>reclaimers := (reclaimers s)(t := Some rc)\<rparr>)
      else if slots l = [] then Inl NullDereference
      else (case exec_calls others
                  ((log_events t (scan_trace (slots l)) s)\<lparr>reclaimers := (reclaimers s)(t := Some rc)\<rparr>) of
          Inl e \<Rightarrow> Inl e
        | Inr s' \<Rightarrow>
            (case reclaim_loop (not_allow_delete_set (slots l)) (reclaim_map rc) (reclaim_pool rc) of
               Inl e \<Rightarrow> Inl e
             | Inr (m', pool', es) \<Rightarrow>
                 Inr (s'\<lparr>reclaimers := (reclaimers s')(t := Some (rc\<lparr>reclaim_map := m', reclaim_pool := pool'\<rparr>)),
                        history := history s' @ map (Pair t) es\<rparr>))))"

section \<open>Destroyers and publications in a history\<close>





text \<open>The pointer of a slot of the chain, null for a reference to no slot.\<close>

definition ptr_of :: "HazardPointer list \<Rightarrow> hp_ref \<Rightarrow> addr" where
  "ptr_of sl hp = (case hp_at sl hp of None \<Rightarrow> nullptr | Some p \<Rightarrow> ptr p)"

section \<open>Auxiliary definitions for the statements\<close>

text \<open>The call of the destroyer of a pending entry, as an event.\<close>

definition invocation :: "addr \<times> ReclaimNode \<Rightarrow> event" where
  "invocation e = Invoke (the (delete_func (snd e))) (node_ptr (snd e))"

text \<open>
  Invariants. Of the registry: the chain is not empty, \<^verbatim>\<open>size\<close> is one less than the
  number of slots of the chain, and a slot whose flag is clear publishes no pointer. Of a
  Reclaimer: its acquired slots are different slots of the chain with their flags set, its
  pool holds a node, and the entries of its map have different keys, each held by its node.
\<close>

definition registry_ok :: "HazardPointerList \<Rightarrow> bool" where
  "registry_ok l \<longleftrightarrow>
     slots l \<noteq> []
     \<and> size_count l + 1 = length (slots l)
     \<and> (\<forall>p\<in>set (slots l). \<not> flag p \<longrightarrow> ptr p = nullptr)"

definition owned_ok :: "HazardPointer list \<Rightarrow> Reclaimer \<Rightarrow> bool" where
  "owned_ok sl rc \<longleftrightarrow>
     distinct (hazard_pointers rc)
     \<and> (\<forall>hp\<in>set (hazard_pointers rc). \<exists>p. hp_at sl hp = Some p \<and> flag p)
     \<and> reclaim_pool rc \<noteq> []
     \<and> (\<forall>e\<in>set (reclaim_map rc). node_ptr (snd e) = fst e)
     \<and> distinct (map fst (reclaim_map rc))"

text \<open>No two threads hold the same slot.\<close>

definition system_ok :: "system \<Rightarrow> bool" where
  "system_ok s \<longleftrightarrow>
     registry_ok (hazard_pointer_list s)
     \<and> (\<forall>t rc. reclaimers s t = Some rc \<longrightarrow> owned_ok (slots (hazard_pointer_list s)) rc)
     \<and> (\<forall>t t' rc rc'. t \<noteq> t' \<and> reclaimers s t = Some rc \<and> reclaimers s t' = Some rc' \<longrightarrow>
           set (hazard_pointers rc) \<inter> set (hazard_pointers rc') = {})"

text \<open>
  What a call of one thread may do to the registry: it keeps the invariants, it leaves the
  slots it does not hold afterwards as they were, and a slot it holds now and did not hold
  before had its flag clear.
\<close>

definition step_ok :: "HazardPointerList \<Rightarrow> Reclaimer \<Rightarrow> HazardPointerList \<Rightarrow> Reclaimer \<Rightarrow> bool" where
  "step_ok l rc l' rc' \<longleftrightarrow>
     registry_ok l' \<and> owned_ok (slots l') rc'
     \<and> (\<forall>h. h \<notin> set (hazard_pointers rc') \<longrightarrow> hp_at (slots l') h = hp_at (slots l) h)
     \<and> (\<forall>h\<in>set (hazard_pointers rc'). h \<notin> set (hazard_pointers rc) \<longrightarrow>
           (\<forall>p. hp_at (slots l) h = Some p \<longrightarrow> \<not> flag p))"

text \<open>The threshold in the words of the specification: the coefficient is \<open>4.25 = 17 / 4\<close>.\<close>

definition spec_threshold_met :: "nat \<Rightarrow> nat \<Rightarrow> bool" where
  "spec_threshold_met pending registry_size \<longleftrightarrow> 17 * registry_size \<le> 4 * pending"

text \<open>Example states, used to instantiate the theorems below.\<close>

definition ex0_list :: HazardPointerList where
  "ex0_list = \<lparr>slots = [\<lparr>flag = True, ptr = 7\<rparr>, \<lparr>flag = True, ptr = nullptr\<rparr>], size_count = 1\<rparr>"
definition ex0_reclaimer :: Reclaimer where
  "ex0_reclaimer = \<lparr>hazard_pointers = [0, 1],
      reclaim_map = [(7, \<lparr>node_ptr = 7, delete_func = Some 1\<rparr>), (8, \<lparr>node_ptr = 8, delete_func = Some 2\<rparr>),
                     (9, \<lparr>node_ptr = 9, delete_func = Some 3\<rparr>), (10, \<lparr>node_ptr = 10, delete_func = Some 4\<rparr>)],
      reclaim_pool = [ReclaimNode_ctor]\<rparr>"

definition ex1_list :: HazardPointerList where
  "ex1_list = \<lparr>slots = [\<lparr>flag = True, ptr = nullptr\<rparr>, \<lparr>flag = True, ptr = 9\<rparr>], size_count = 1\<rparr>"
definition ex1_reclaimer :: Reclaimer where
  "ex1_reclaimer = \<lparr>hazard_pointers = [1],
      reclaim_map = [(7, \<lparr>node_ptr = 7, delete_func = Some 1\<rparr>), (8, \<lparr>node_ptr = 8, delete_func = Some 2\<rparr>)],
      reclaim_pool = [ReclaimNode_ctor]\<rparr>"

definition ex2_list :: HazardPointerList where
  "ex2_list = \<lparr>slots = [\<lparr>flag = True, ptr = 5\<rparr>, \<lparr>flag = False, ptr = nullptr\<rparr>, \<lparr>flag = False, ptr = nullptr\<rparr>],
         size_count = 2\<rparr>"
definition ex3_list :: HazardPointerList where
  "ex3_list = \<lparr>slots = [\<lparr>flag = True, ptr = 5\<rparr>, \<lparr>flag = True, ptr = nullptr\<rparr>], size_count = 1\<rparr>"

definition ex_reclaimer_threshold :: Reclaimer where
  "ex_reclaimer_threshold =
     \<lparr>hazard_pointers = [0, 1],
      reclaim_map = [(11, \<lparr>node_ptr = 11, delete_func = Some 1\<rparr>), (12, \<lparr>node_ptr = 12, delete_func = Some 2\<rparr>),
                     (13, \<lparr>node_ptr = 13, delete_func = Some 3\<rparr>), (14, \<lparr>node_ptr = 14, delete_func = Some 4\<rparr>)],
      reclaim_pool = [ReclaimNode_ctor]\<rparr>"

text \<open>
  Events by what they do to the slots and the pending objects. An event that is not silent
  stores a pointer into a slot or calls a destroyer; an inert one is a load or a yield, which
  is all a waiting thread does.
\<close>

fun silent :: "event \<Rightarrow> bool" where
  "silent (StorePtr hp a) = False"
| "silent (Invoke f a) = False"
| "silent e = True"

fun inert :: "event \<Rightarrow> bool" where
  "inert (LoadPtr hp) = True"
| "inert Yield = True"
| "inert e = False"

definition quiet :: "event list \<Rightarrow> bool" where
  "quiet es \<longleftrightarrow> (\<forall>e\<in>set es. silent e)"




text \<open>
  The thread of a call, and what a thread did in a history apart from its loads and yields.
\<close>

fun call_tid :: "call \<Rightarrow> tid" where
  "call_tid (CallMarkHazard t index a k) = t"
| "call_tid (CallGetHazardPtr t index k) = t"
| "call_tid (CallReclaimLater t a func) = t"
| "call_tid (CallReclaimNoHazardPointer t) = t"

definition acts_of :: "tid \<Rightarrow> (tid \<times> event) list \<Rightarrow> event list" where
  "acts_of t h = map snd (filter (\<lambda>x. fst x = t \<and> \<not> inert (snd x)) h)"

text \<open>
  Example runs. In the first, thread 0 uses two indices, so that the second slot is allocated,
  clears them and ends; in the second, thread 1 then takes a slot. In the third, thread 0
  holds two slots and defers four addresses. In the fourth, thread 1 defers the address
  thread 0 has published and ends: it yields twice before thread 0 clears the slot.
\<close>

definition ex_calls_reuse :: "action list" where
  "ex_calls_reuse =
     [Call (CallMarkHazard 0 0 5 0), Call (CallMarkHazard 0 1 6 1), Call (CallReclaimLater 0 5 (Some 1)),
      Call (CallMarkHazard 0 0 nullptr 0), Call (CallMarkHazard 0 1 nullptr 0),
      Call (CallReclaimNoHazardPointer 0), ThreadExit 0 []]"

definition ex_system_reuse :: system where
  "ex_system_reuse =
     \<lparr>hazard_pointer_list =
        \<lparr>slots = [\<lparr>flag = False, ptr = nullptr\<rparr>, \<lparr>flag = False, ptr = nullptr\<rparr>], size_count = 1\<rparr>,
      reclaimers = (\<lambda>t. None),
      history = map (Pair 0)
        [TestAndSet 0, StorePtr 0 5,
         TestAndSet 0, NewSlot 1, TestAndSet 1, FetchAddSize, CasHead False, CasHead True, StorePtr 1 6,
         StorePtr 0 nullptr, StorePtr 1 nullptr,
         LoadPtr 0, Clear 0, LoadPtr 1, Clear 1,
         LoadPtr 1, LoadPtr 0, Invoke 1 5]\<rparr>"

definition ex_system_reacquired :: system where
  "ex_system_reacquired =
     ex_system_reuse
       \<lparr>hazard_pointer_list :=
          \<lparr>slots = [\<lparr>flag = True, ptr = 8\<rparr>, \<lparr>flag = False, ptr = nullptr\<rparr>], size_count = 1\<rparr>,
        reclaimers := (\<lambda>t. None)(1 := Some (Reclaimer_ctor\<lparr>hazard_pointers := [1]\<rparr>)),
        history := history ex_system_reuse @ [(1, TestAndSet 1), (1, StorePtr 1 8)]\<rparr>"

definition ex_calls_threshold :: "action list" where
  "ex_calls_threshold =
     [Call (CallMarkHazard 0 0 nullptr 0), Call (CallMarkHazard 0 1 nullptr 0),
      Call (CallReclaimLater 0 11 (Some 1)), Call (CallReclaimLater 0 12 (Some 2)),
      Call (CallReclaimLater 0 13 (Some 3)), Call (CallReclaimLater 0 14 (Some 4))]"

definition ex_system_threshold :: system where
  "ex_system_threshold =
     \<lparr>hazard_pointer_list =
        \<lparr>slots = [\<lparr>flag = True, ptr = nullptr\<rparr>, \<lparr>flag = True, ptr = nullptr\<rparr>], size_count = 1\<rparr>,
      reclaimers = (\<lambda>t. None)(0 := Some ex_reclaimer_threshold),
      history = map (Pair 0)
        [TestAndSet 0, StorePtr 0 nullptr,
         TestAndSet 0, NewSlot 1, TestAndSet 1, FetchAddSize, CasHead True, StorePtr 1 nullptr]\<rparr>"





text \<open>Thread 0 holds one slot, which publishes nothing, and has deferred the null pointer.\<close>

definition ex_system_null :: system where
  "ex_system_null =
     \<lparr>hazard_pointer_list = \<lparr>slots = [\<lparr>flag = True, ptr = nullptr\<rparr>], size_count = 0\<rparr>,
      reclaimers = (\<lambda>t. None)
        (0 := Some \<lparr>hazard_pointers = [0],
                    reclaim_map = [(nullptr, \<lparr>node_ptr = nullptr, delete_func = Some 1\<rparr>)],
                    reclaim_pool = [ReclaimNode_ctor]\<rparr>),
      history = [(0, TestAndSet 0), (0, StorePtr 0 nullptr)]\<rparr>"

section \<open>The pool is never empty\<close>

lemma Pop_nonempty:
  assumes "pool \<noteq> []"
  shows "\<exists>node pool'. Pop pool = Inr (node, pool') \<and> pool' \<noteq> []"
proof (cases pool)
  case Nil
  with assms show ?thesis by simp
next
  case (Cons h rest)
  then show ?thesis by (cases rest) simp_all
qed

lemma pool_step_nonempty:
  assumes "pool \<noteq> []"
  shows "\<exists>pool'. pool_step p pool = Inr pool' \<and> pool' \<noteq> []"
proof (cases p)
  case (PushOp node)
  then show ?thesis by (simp add: Push_def)
next
  case PopOp
  from Pop_nonempty [OF assms] obtain node pool'
    where "Pop pool = Inr (node, pool')" "pool' \<noteq> []" by blast
  with PopOp show ?thesis by simp
qed

lemma pool_run_nonempty:
  "pool \<noteq> [] \<Longrightarrow> \<exists>pool'. pool_run ps pool = Inr pool' \<and> pool' \<noteq> []"
proof (induction ps arbitrary: pool)
  case Nil
  then show ?case by simp
next
  case (Cons p ps)
  from pool_step_nonempty [OF Cons.prems] obtain q
    where q: "pool_step p pool = Inr q" "q \<noteq> []" by blast
  from Cons.IH [OF q(2)] q(1) show ?case by simp
qed

text \<open>
  C9. The pool is built holding one node, and after any sequence of \<^verbatim>\<open>Push\<close> and
  \<^verbatim>\<open>Pop\<close> every call has returned and the pool still holds a node: its head is not null.
  \<^verbatim>\<open>Pop\<close> on a pool of one node leaves the pool as it is and returns a fresh node.
\<close>

theorem ReclaimPool_never_empty:
  "(\<exists>pool. pool_run ps ReclaimPool_ctor = Inr pool \<and> pool \<noteq> [])
   \<and> ReclaimPool_ctor \<noteq> []
   \<and> Push node q \<noteq> []
   \<and> Pop [h] = Inr (ReclaimNode_ctor, [h])"
proof -
  have "ReclaimPool_ctor \<noteq> []" by (simp add: ReclaimPool_ctor_def)
  with pool_run_nonempty [of ReclaimPool_ctor ps] show ?thesis
    by (simp add: Push_def)
qed

section \<open>Slots, scan and wait: basic facts\<close>

lemma length_hp_update [simp]: "length (hp_update f r sl) = length sl"
  by (induction sl) auto

lemma hp_at_Some_less: "hp_at sl r = Some p \<Longrightarrow> r < length sl"
  by (induction sl) (auto split: if_splits)

lemma hp_at_less: "r < length sl \<Longrightarrow> \<exists>p. hp_at sl r = Some p"
  by (induction sl) (auto simp: less_Suc_eq)

lemma hp_at_None_iff: "hp_at sl r = None \<longleftrightarrow> length sl \<le> r"
  by (induction sl) auto

lemma hp_at_in_set: "hp_at sl r = Some p \<Longrightarrow> p \<in> set sl"
  by (induction sl) (auto split: if_splits)

lemma in_set_hp_at: "p \<in> set sl \<Longrightarrow> \<exists>r. hp_at sl r = Some p"
proof (induction sl)
  case Nil
  then show ?case by simp
next
  case (Cons q sl)
  show ?case
  proof (cases "p = q")
    case True
    then have "hp_at (q # sl) (length sl) = Some p" by simp
    then show ?thesis ..
  next
    case False
    with Cons obtain r where r: "hp_at sl r = Some p" by auto
    then have "r < length sl" by (rule hp_at_Some_less)
    with r have "hp_at (q # sl) r = Some p" by simp
    then show ?thesis ..
  qed
qed

lemma hp_at_hp_update:
  "hp_at (hp_update f r sl) r' = (if r' = r then map_option f (hp_at sl r) else hp_at sl r')"
  by (induction sl) auto

lemma hp_update_beyond: "length sl \<le> r \<Longrightarrow> hp_update f r sl = sl"
  by (induction sl) auto

lemma find_idle_Some:
  "find_idle sl = Some r \<Longrightarrow> \<exists>p. hp_at sl r = Some p \<and> \<not> flag p"
  by (induction sl) (auto split: if_splits dest: hp_at_Some_less)

lemma find_idle_None: "find_idle sl = None \<longleftrightarrow> (\<forall>p\<in>set sl. flag p)"
  by (induction sl) auto



lemma scan_trace_eq: "scan_trace sl = map LoadPtr (rev [0..<length sl])"
  by (induction sl) auto

section \<open>The scan-and-reclaim pass\<close>

lemma not_allow_delete_set_published: "not_allow_delete_set sl = published_addresses sl"
  by (induction sl) (auto simp: published_addresses_def)

lemma reclaim_loop_result:
  assumes "\<forall>e\<in>set m. fst e \<notin> S \<longrightarrow> delete_func (snd e) \<noteq> None"
  shows "reclaim_loop S m pool =
    Inr (filter (\<lambda>e. fst e \<in> S) m,
         rev (map snd (filter (\<lambda>e. fst e \<notin> S) m)) @ pool,
         map invocation (filter (\<lambda>e. fst e \<notin> S) m))"
  using assms
proof (induction m arbitrary: pool)
  case Nil
  then show ?case by simp
next
  case (Cons e m)
  obtain a node where e: "e = (a, node)" by (cases e)
  from Cons.prems have rest: "\<forall>e\<in>set m. fst e \<notin> S \<longrightarrow> delete_func (snd e) \<noteq> None"
    by simp
  show ?case
  proof (cases "a \<in> S")
    case True
    with Cons.IH [OF rest, of pool] e show ?thesis by simp
  next
    case False
    with Cons.prems e obtain f where f: "delete_func node = Some f" by auto
    with False Cons.IH [OF rest, of "Push node pool"] e show ?thesis
      by (simp add: Push_def invocation_def)
  qed
qed

text \<open>
  C1. When the threshold is met, \<^verbatim>\<open>ReclaimNoHazardPointer\<close> first loads the pointer of
  every slot from the head on; the set it builds is \<open>published_addresses\<close>, the pointers
  that are not null. Then, in the order of the map, every entry whose address is not in the
  set has its destroyer called on that address, its node pushed on the pool and is erased;
  the entries whose address is in the set stay as they are and no destroyer is called for
  them. The entries are those \<^verbatim>\<open>ReclaimLater\<close> makes when it is given a destroyer: the
  node holds the key and a function that is not empty.
\<close>

theorem ReclaimNoHazardPointer_scan:
  assumes threshold: "to_size_t kCoefficient * get_size l \<le> length (reclaim_map rc)"
    and chain: "slots l \<noteq> []"
    and pending: "\<forall>e\<in>set (reclaim_map rc). node_ptr (snd e) = fst e \<and> delete_func (snd e) \<noteq> None"
  shows "ReclaimNoHazardPointer l rc =
      Inr (l,
           rc\<lparr>reclaim_map := filter (\<lambda>e. fst e \<in> published_addresses (slots l)) (reclaim_map rc),
              reclaim_pool :=
                rev (map snd (filter (\<lambda>e. fst e \<notin> published_addresses (slots l)) (reclaim_map rc)))
                  @ reclaim_pool rc\<rparr>,
           map LoadPtr (rev [0..<length (slots l)])
             @ map (\<lambda>e. Invoke (the (delete_func (snd e))) (fst e))
                 (filter (\<lambda>e. fst e \<notin> published_addresses (slots l)) (reclaim_map rc)))"
proof -
  let ?S = "published_addresses (slots l)"
  from pending have "\<forall>e\<in>set (reclaim_map rc). fst e \<notin> ?S \<longrightarrow> delete_func (snd e) \<noteq> None"
    by simp
  from reclaim_loop_result [OF this, of "reclaim_pool rc"]
  have loop: "reclaim_loop ?S (reclaim_map rc) (reclaim_pool rc) =
    Inr (filter (\<lambda>e. fst e \<in> ?S) (reclaim_map rc),
         rev (map snd (filter (\<lambda>e. fst e \<notin> ?S) (reclaim_map rc))) @ reclaim_pool rc,
         map invocation (filter (\<lambda>e. fst e \<notin> ?S) (reclaim_map rc)))" .
  from pending have inv: "map invocation (filter (\<lambda>e. fst e \<notin> ?S) (reclaim_map rc))
      = map (\<lambda>e. Invoke (the (delete_func (snd e))) (fst e)) (filter (\<lambda>e. fst e \<notin> ?S) (reclaim_map rc))"
    by (simp add: invocation_def)
  from threshold have "\<not> length (reclaim_map rc) < to_size_t kCoefficient * get_size l"
    by simp
  with chain loop inv show ?thesis
    by (simp add: ReclaimNoHazardPointer_def not_allow_delete_set_published scan_trace_eq)
qed

lemma published_ex0: "published_addresses (slots ex0_list) = {7}"
  by (auto simp: published_addresses_def ex0_list_def)

lemma kCoefficient_value: "to_size_t kCoefficient = 4"
  by (simp add: kCoefficient_def to_size_t_def)

theorem ReclaimNoHazardPointer_scan_witness:
  "to_size_t kCoefficient * get_size ex0_list \<le> length (reclaim_map ex0_reclaimer)
   \<and> ReclaimNoHazardPointer ex0_list ex0_reclaimer =
      Inr (ex0_list,
        ex0_reclaimer\<lparr>reclaim_map := [(7, \<lparr>node_ptr = 7, delete_func = Some 1\<rparr>)],
            reclaim_pool := [\<lparr>node_ptr = 10, delete_func = Some 4\<rparr>, \<lparr>node_ptr = 9, delete_func = Some 3\<rparr>,
                             \<lparr>node_ptr = 8, delete_func = Some 2\<rparr>, ReclaimNode_ctor]\<rparr>,
        [LoadPtr 1, LoadPtr 0, Invoke 2 8, Invoke 3 9, Invoke 4 10])"
  using ReclaimNoHazardPointer_scan [of ex0_list ex0_reclaimer]
  by (simp add: published_ex0 kCoefficient_value get_size_def) (simp add: ex0_list_def ex0_reclaimer_def upt_rec)

section \<open>The destructor\<close>

lemma length_fold_hp_update [simp]:
  "length (fold (\<lambda>hp. hp_update f hp) hps sl) = length sl"
  by (induction hps arbitrary: sl) auto

lemma hp_at_released:
  "hp_at (fold (\<lambda>hp. hp_update (\<lambda>p. p\<lparr>flag := False\<rparr>) hp) hps sl) r =
     (if r \<in> set hps then map_option (\<lambda>p. p\<lparr>flag := False\<rparr>) (hp_at sl r) else hp_at sl r)"
proof (induction hps arbitrary: sl)
  case Nil
  then show ?case by simp
next
  case (Cons hp hps)
  show ?case
    by (cases "hp_at sl r") (auto simp: Cons.IH hp_at_hp_update)
qed

lemma ptr_hp_update_flag:
  "map ptr (hp_update (\<lambda>p. p\<lparr>flag := b\<rparr>) r sl) = map ptr sl"
  by (induction sl) auto

lemma ptr_released:
  "map ptr (fold (\<lambda>hp. hp_update (\<lambda>p. p\<lparr>flag := False\<rparr>) hp) hps sl) = map ptr sl"
  by (induction hps arbitrary: sl) (auto simp: ptr_hp_update_flag)

lemma Hazard_map_ptr: "Hazard sl a \<longleftrightarrow> a \<in> set (map ptr sl)"
  by (induction sl) auto

lemma Hazard_trace_map_ptr: "map ptr sl = map ptr sl' \<Longrightarrow> Hazard_trace sl a = Hazard_trace sl' a"
proof (induction sl arbitrary: sl')
  case Nil
  then show ?case by simp
next
  case (Cons p sl)
  then obtain q rest where "sl' = q # rest" by (cases sl') auto
  with Cons show ?case
    using map_eq_imp_length_eq [of ptr sl ptr rest] by auto
qed

lemma Hazard_trace_full: "\<not> Hazard sl a \<Longrightarrow> Hazard_trace sl a = map LoadPtr (rev [0..<length sl])"
  by (induction sl) (auto split: if_splits)

lemma hand_over_releases:
  assumes "\<forall>hp\<in>set hps. \<exists>p. hp_at sl hp = Some p \<and> ptr p = nullptr"
  shows "hand_over hps sl =
    Inr (fold (\<lambda>hp. hp_update (\<lambda>p. p\<lparr>flag := False\<rparr>) hp) hps sl,
         concat (map (\<lambda>hp. [LoadPtr hp, Clear hp]) hps))"
  using assms
proof (induction hps arbitrary: sl)
  case Nil
  then show ?case by simp
next
  case (Cons hp hps)
  from Cons.prems obtain p where p: "hp_at sl hp = Some p" "ptr p = nullptr" by auto
  have "\<forall>h\<in>set hps. \<exists>q. hp_at (hp_update (\<lambda>p. p\<lparr>flag := False\<rparr>) hp sl) h = Some q \<and> ptr q = nullptr"
  proof
    fix h assume "h \<in> set hps"
    with Cons.prems obtain q where "hp_at sl h = Some q" "ptr q = nullptr" by auto
    then show "\<exists>q. hp_at (hp_update (\<lambda>p. p\<lparr>flag := False\<rparr>) hp sl) h = Some q \<and> ptr q = nullptr"
      by (auto simp: hp_at_hp_update)
  qed
  from Cons.IH [OF this] p show ?case by simp
qed

lemma hand_over_asserts:
  assumes "\<forall>hp\<in>set hps. hp < length sl"
    and "\<exists>hp\<in>set hps. \<exists>p. hp_at sl hp = Some p \<and> ptr p \<noteq> nullptr"
  shows "hand_over hps sl = Inl AssertionFailed"
  using assms
proof (induction hps arbitrary: sl)
  case Nil
  then show ?case by simp
next
  case (Cons hp hps)
  from Cons.prems(1) have "hp < length sl" by simp
  then obtain p where p: "hp_at sl hp = Some p" using hp_at_less by blast
  show ?case
  proof (cases "ptr p = nullptr")
    case False
    with p show ?thesis by simp
  next
    case True
    let ?sl = "hp_update (\<lambda>p. p\<lparr>flag := False\<rparr>) hp sl"
    from Cons.prems(1) have valid: "\<forall>h\<in>set hps. h < length ?sl" by simp
    from Cons.prems(2) True p obtain h q where h: "h \<in> set hps" "hp_at sl h = Some q" "ptr q \<noteq> nullptr"
      by auto
    then have "\<exists>q'. hp_at ?sl h = Some q' \<and> ptr q' \<noteq> nullptr"
      by (auto simp: hp_at_hp_update)
    with h(1) have "\<exists>h\<in>set hps. \<exists>q'. hp_at ?sl h = Some q' \<and> ptr q' \<noteq> nullptr" by blast
    from Cons.IH [OF valid this] p True show ?thesis by simp
  qed
qed

section \<open>Acquiring a slot\<close>

lemma cas_loop_eq: "cas_loop k = replicate k (CasHead False) @ [CasHead True]"
  by (induction k) auto

lemma find_idle_first:
  assumes "hp_at sl hp = Some p" and "\<not> flag p"
    and "\<forall>hp' p'. hp < hp' \<and> hp_at sl hp' = Some p' \<longrightarrow> flag p'"
  shows "find_idle sl = Some hp \<and> claim_trace sl = map TestAndSet (rev [hp..<length sl])"
  using assms
proof (induction sl)
  case Nil
  then show ?case by simp
next
  case (Cons q rest)
  show ?case
  proof (cases "hp = length rest")
    case True
    with Cons.prems show ?thesis by simp
  next
    case False
    with Cons.prems(1) have at: "hp_at rest hp = Some p" by simp
    then have less: "hp < length rest" by (rule hp_at_Some_less)
    have "hp_at (q # rest) (length rest) = Some q" by simp
    with less Cons.prems(3) have q: "flag q" by blast
    have "\<forall>hp' p'. hp < hp' \<and> hp_at rest hp' = Some p' \<longrightarrow> flag p'"
    proof (intro allI impI)
      fix hp' p' assume h: "hp < hp' \<and> hp_at rest hp' = Some p'"
      then have "hp' < length rest" using hp_at_Some_less by blast
      with h have "hp_at (q # rest) hp' = Some p'" by simp
      with h Cons.prems(3) show "flag p'" by blast
    qed
    from Cons.IH [OF at Cons.prems(2) this] q less show ?thesis by simp
  qed
qed

lemma find_idle_none:
  assumes "\<forall>p\<in>set sl. flag p"
  shows "find_idle sl = None \<and> claim_trace sl = map TestAndSet (rev [0..<length sl])"
  using assms by (induction sl) auto

text \<open>
  C5. \<^verbatim>\<open>TryAcquireHazardPointer\<close> on the first use of an index (the index is the number
  of slots acquired so far). If a slot has its flag clear, the one nearest to the head is
  claimed: every slot from the head down to it is test-and-set, its flag is now set, it
  becomes the slot of the index, and \<^verbatim>\<open>size\<close> and the chain are as before. If every flag
  is set, every slot is test-and-set, then a new slot is made with a null pointer, its flag is
  set, \<^verbatim>\<open>size\<close> is incremented, and only then comes the loop of compare-and-swaps that
  ends with the one that succeeds; the new slot is the head of the chain.
\<close>

theorem TryAcquireHazardPointer_first_use:
  assumes first_use: "to_size_t index = length (hazard_pointers rc)"
    and chain: "slots l \<noteq> []"
  shows "(\<forall>hp p. hp_at (slots l) hp = Some p \<and> \<not> flag p
              \<and> (\<forall>hp' p'. hp < hp' \<and> hp_at (slots l) hp' = Some p' \<longrightarrow> flag p') \<longrightarrow>
            TryAcquireHazardPointer index k l rc =
              Inr (l\<lparr>slots := hp_update (\<lambda>p. p\<lparr>flag := True\<rparr>) hp (slots l)\<rparr>,
                   rc\<lparr>hazard_pointers := hazard_pointers rc @ [hp]\<rparr>,
                   map TestAndSet (rev [hp..<length (slots l)])))
    \<and> ((\<forall>p\<in>set (slots l). flag p) \<longrightarrow>
            TryAcquireHazardPointer index k l rc =
              Inr (l\<lparr>slots := \<lparr>flag = True, ptr = nullptr\<rparr> # slots l,
                     size_count := size_count l + 1\<rparr>,
                   rc\<lparr>hazard_pointers := hazard_pointers rc @ [length (slots l)]\<rparr>,
                   map TestAndSet (rev [0..<length (slots l)])
                     @ [NewSlot (length (slots l)), TestAndSet (length (slots l)), FetchAddSize]
                     @ replicate k (CasHead False) @ [CasHead True]))"
proof (intro conjI allI impI)
  fix hp p
  assume "hp_at (slots l) hp = Some p \<and> \<not> flag p
    \<and> (\<forall>hp' p'. hp < hp' \<and> hp_at (slots l) hp' = Some p' \<longrightarrow> flag p')"
  then have "find_idle (slots l) = Some hp
    \<and> claim_trace (slots l) = map TestAndSet (rev [hp..<length (slots l)])"
    by (intro find_idle_first) blast+
  with first_use chain show "TryAcquireHazardPointer index k l rc =
      Inr (l\<lparr>slots := hp_update (\<lambda>p. p\<lparr>flag := True\<rparr>) hp (slots l)\<rparr>,
           rc\<lparr>hazard_pointers := hazard_pointers rc @ [hp]\<rparr>,
           map TestAndSet (rev [hp..<length (slots l)]))"
    by (simp add: TryAcquireHazardPointer_def)
next
  assume "\<forall>p\<in>set (slots l). flag p"
  then have "find_idle (slots l) = None
    \<and> claim_trace (slots l) = map TestAndSet (rev [0..<length (slots l)])"
    by (rule find_idle_none)
  with first_use chain show "TryAcquireHazardPointer index k l rc =
      Inr (l\<lparr>slots := \<lparr>flag = True, ptr = nullptr\<rparr> # slots l, size_count := size_count l + 1\<rparr>,
           rc\<lparr>hazard_pointers := hazard_pointers rc @ [length (slots l)]\<rparr>,
           map TestAndSet (rev [0..<length (slots l)])
             @ [NewSlot (length (slots l)), TestAndSet (length (slots l)), FetchAddSize]
             @ replicate k (CasHead False) @ [CasHead True])"
    by (simp add: TryAcquireHazardPointer_def cas_loop_eq HazardPointer_ctor_def Let_def)
qed

theorem TryAcquireHazardPointer_first_use_witness:
  "TryAcquireHazardPointer 0 2 ex2_list Reclaimer_ctor =
     Inr (ex2_list\<lparr>slots := [\<lparr>flag = True, ptr = 5\<rparr>, \<lparr>flag = True, ptr = nullptr\<rparr>, \<lparr>flag = False, ptr = nullptr\<rparr>]\<rparr>,
          Reclaimer_ctor\<lparr>hazard_pointers := [1]\<rparr>,
          [TestAndSet 2, TestAndSet 1])
   \<and> TryAcquireHazardPointer 0 2 ex3_list Reclaimer_ctor =
     Inr (ex3_list\<lparr>slots := [\<lparr>flag = True, ptr = nullptr\<rparr>, \<lparr>flag = True, ptr = 5\<rparr>, \<lparr>flag = True, ptr = nullptr\<rparr>],
             size_count := 2\<rparr>,
          Reclaimer_ctor\<lparr>hazard_pointers := [2]\<rparr>,
          [TestAndSet 1, TestAndSet 0, NewSlot 2, TestAndSet 2, FetchAddSize,
           CasHead False, CasHead False, CasHead True])"
proof -
  have idx: "to_size_t 0 = length (hazard_pointers Reclaimer_ctor)"
    by (simp add: to_size_t_def Reclaimer_ctor_def)
  from TryAcquireHazardPointer_first_use [OF idx, of ex2_list 2, THEN conjunct1, rule_format,
      of 1 "\<lparr>flag = False, ptr = nullptr\<rparr>"]
  have reuse: "TryAcquireHazardPointer 0 2 ex2_list Reclaimer_ctor =
     Inr (ex2_list\<lparr>slots := [\<lparr>flag = True, ptr = 5\<rparr>, \<lparr>flag = True, ptr = nullptr\<rparr>, \<lparr>flag = False, ptr = nullptr\<rparr>]\<rparr>,
          Reclaimer_ctor\<lparr>hazard_pointers := [1]\<rparr>,
          [TestAndSet 2, TestAndSet 1])"
    by (simp add: ex2_list_def Reclaimer_ctor_def upt_rec)
  from TryAcquireHazardPointer_first_use [OF idx, of ex3_list 2, THEN conjunct2]
  have alloc: "TryAcquireHazardPointer 0 2 ex3_list Reclaimer_ctor =
     Inr (ex3_list\<lparr>slots := [\<lparr>flag = True, ptr = nullptr\<rparr>, \<lparr>flag = True, ptr = 5\<rparr>, \<lparr>flag = True, ptr = nullptr\<rparr>],
             size_count := 2\<rparr>,
          Reclaimer_ctor\<lparr>hazard_pointers := [2]\<rparr>,
          [TestAndSet 1, TestAndSet 0, NewSlot 2, TestAndSet 2, FetchAddSize,
           CasHead False, CasHead False, CasHead True])"
    by (simp add: ex3_list_def Reclaimer_ctor_def upt_rec numeral_2_eq_2)
  from reuse alloc show ?thesis by blast
qed

section \<open>Publishing a pointer\<close>

lemma TryAcquireHazardPointer_cases:
  assumes "to_size_t index \<le> length (hazard_pointers rc)" and "slots l \<noteq> []"
  obtains
    (in_use) "to_size_t index < length (hazard_pointers rc)"
      "TryAcquireHazardPointer index k l rc = Inr (l, rc, [])"
  | (reuse) hp p where "to_size_t index = length (hazard_pointers rc)"
      "hp_at (slots l) hp = Some p" "\<not> flag p"
      "TryAcquireHazardPointer index k l rc =
         Inr (l\<lparr>slots := hp_update (\<lambda>p. p\<lparr>flag := True\<rparr>) hp (slots l)\<rparr>,
              rc\<lparr>hazard_pointers := hazard_pointers rc @ [hp]\<rparr>, claim_trace (slots l))"
  | (alloc) "to_size_t index = length (hazard_pointers rc)"
      "\<forall>p\<in>set (slots l). flag p"
      "TryAcquireHazardPointer index k l rc =
         Inr (l\<lparr>slots := \<lparr>flag = True, ptr = nullptr\<rparr> # slots l, size_count := size_count l + 1\<rparr>,
              rc\<lparr>hazard_pointers := hazard_pointers rc @ [length (slots l)]\<rparr>,
              claim_trace (slots l)
                @ [NewSlot (length (slots l)), TestAndSet (length (slots l)), FetchAddSize]
                @ cas_loop k)"
proof (cases "to_size_t index < length (hazard_pointers rc)")
  case True
  with assms have "TryAcquireHazardPointer index k l rc = Inr (l, rc, [])"
    by (simp add: TryAcquireHazardPointer_def)
  with True show ?thesis by (rule in_use)
next
  case False
  with assms(1) have eq: "to_size_t index = length (hazard_pointers rc)" by simp
  show ?thesis
  proof (cases "find_idle (slots l)")
    case None
    then have "\<forall>p\<in>set (slots l). flag p" by (simp add: find_idle_None)
    moreover from None eq assms(2) have "TryAcquireHazardPointer index k l rc =
         Inr (l\<lparr>slots := \<lparr>flag = True, ptr = nullptr\<rparr> # slots l, size_count := size_count l + 1\<rparr>,
              rc\<lparr>hazard_pointers := hazard_pointers rc @ [length (slots l)]\<rparr>,
              claim_trace (slots l)
                @ [NewSlot (length (slots l)), TestAndSet (length (slots l)), FetchAddSize]
                @ cas_loop k)"
      by (simp add: TryAcquireHazardPointer_def HazardPointer_ctor_def Let_def)
    ultimately show ?thesis using eq by (intro alloc)
  next
    case (Some hp)
    then obtain p where "hp_at (slots l) hp = Some p" "\<not> flag p"
      using find_idle_Some by blast
    moreover from Some eq assms(2) have "TryAcquireHazardPointer index k l rc =
         Inr (l\<lparr>slots := hp_update (\<lambda>p. p\<lparr>flag := True\<rparr>) hp (slots l)\<rparr>,
              rc\<lparr>hazard_pointers := hazard_pointers rc @ [hp]\<rparr>, claim_trace (slots l))"
      by (simp add: TryAcquireHazardPointer_def)
    ultimately show ?thesis using eq by (intro reuse)
  qed
qed

lemma hp_at_hp_update_same:
  "hp_at sl r = Some p \<Longrightarrow> hp_at (hp_update f r sl) r = Some (f p)"
  by (simp add: hp_at_hp_update)

lemma hp_at_hp_update_other:
  "r' \<noteq> r \<Longrightarrow> hp_at (hp_update f r sl) r' = hp_at sl r'"
  by (simp add: hp_at_hp_update)

lemma to_size_t_int: "0 \<le> i \<Longrightarrow> i < 2 ^ 31 \<Longrightarrow> to_size_t i = nat i"
  by (simp add: to_size_t_def)

text \<open>
  C6, as amended. With \<open>n\<close> slots acquired, \<^verbatim>\<open>MarkHazard(index, ptr)\<close> for
  \<open>0 \<le> index \<le> n\<close> passes the assertion, indexes the array of acquired slots within its
  bounds, and the slot of the index then publishes \<open>ptr\<close>; the slots of the indices already
  in use stay, and \<open>index = n\<close> acquires one more.
\<close>

theorem MarkHazard_publishes:
  assumes index: "0 \<le> index" "index \<le> int (length (hazard_pointers rc))" "index < 2 ^ 31"
    and refs: "\<forall>hp\<in>set (hazard_pointers rc). hp < length (slots l)"
    and chain: "slots l \<noteq> []"
  shows "\<exists>l' rc' es p. MarkHazard index a k l rc = Inr (l', rc', es)
      \<and> nat index < length (hazard_pointers rc')
      \<and> hp_at (slots l') (hazard_pointers rc' ! nat index) = Some p \<and> ptr p = a
      \<and> last es = StorePtr (hazard_pointers rc' ! nat index) a
      \<and> take (length (hazard_pointers rc)) (hazard_pointers rc') = hazard_pointers rc
      \<and> length (hazard_pointers rc') = max (length (hazard_pointers rc)) (nat index + 1)"
proof -
  from index have conv: "to_size_t index = nat index" by (simp add: to_size_t_int)
  with index have le: "to_size_t index \<le> length (hazard_pointers rc)" by simp
  from le chain show ?thesis
  proof (cases rule: TryAcquireHazardPointer_cases [where k = k])
    case in_use
    let ?hp = "hazard_pointers rc ! nat index"
    from in_use(1) conv refs have "?hp < length (slots l)" by simp
    then obtain q where q: "hp_at (slots l) ?hp = Some q" using hp_at_less by blast
    with in_use conv have "MarkHazard index a k l rc =
        Inr (l\<lparr>slots := hp_update (\<lambda>p. p\<lparr>ptr := a\<rparr>) ?hp (slots l)\<rparr>, rc, [StorePtr ?hp a])"
      by (simp add: MarkHazard_def acquired_slot_def)
    moreover from q have "hp_at (hp_update (\<lambda>p. p\<lparr>ptr := a\<rparr>) ?hp (slots l)) ?hp = Some (q\<lparr>ptr := a\<rparr>)"
      by (rule hp_at_hp_update_same)
    ultimately show ?thesis using in_use(1) conv by simp
  next
    case (reuse hp p)
    let ?sl = "hp_update (\<lambda>p. p\<lparr>flag := True\<rparr>) hp (slots l)"
    from reuse(2) have at: "hp_at ?sl hp = Some (p\<lparr>flag := True\<rparr>)"
      by (rule hp_at_hp_update_same)
    with reuse conv have "MarkHazard index a k l rc =
        Inr (l\<lparr>slots := hp_update (\<lambda>p. p\<lparr>ptr := a\<rparr>) hp ?sl\<rparr>,
             rc\<lparr>hazard_pointers := hazard_pointers rc @ [hp]\<rparr>,
             claim_trace (slots l) @ [StorePtr hp a])"
      by (simp add: MarkHazard_def acquired_slot_def)
    moreover from at have "hp_at (hp_update (\<lambda>p. p\<lparr>ptr := a\<rparr>) hp ?sl) hp = Some (p\<lparr>flag := True, ptr := a\<rparr>)"
      using hp_at_hp_update_same [OF at, of "\<lambda>p. p\<lparr>ptr := a\<rparr>"] by simp
    ultimately show ?thesis using reuse(1) conv by simp
  next
    case alloc
    let ?hp = "length (slots l)"
    let ?sl = "\<lparr>flag = True, ptr = nullptr\<rparr> # slots l"
    from alloc conv have "MarkHazard index a k l rc =
        Inr (l\<lparr>slots := hp_update (\<lambda>p. p\<lparr>ptr := a\<rparr>) ?hp ?sl, size_count := size_count l + 1\<rparr>,
             rc\<lparr>hazard_pointers := hazard_pointers rc @ [?hp]\<rparr>,
             claim_trace (slots l) @ [NewSlot ?hp, TestAndSet ?hp, FetchAddSize] @ cas_loop k
               @ [StorePtr ?hp a])"
      by (simp add: MarkHazard_def acquired_slot_def)
    then show ?thesis using alloc(1) conv by simp
  qed
qed

theorem MarkHazard_publishes_witness:
  "(\<exists>l' rc' es p. MarkHazard 1 7 0 ex1_list ex1_reclaimer = Inr (l', rc', es)
      \<and> nat 1 < length (hazard_pointers rc')
      \<and> hp_at (slots l') (hazard_pointers rc' ! nat 1) = Some p \<and> ptr p = 7
      \<and> last es = StorePtr (hazard_pointers rc' ! nat 1) 7
      \<and> take (length (hazard_pointers ex1_reclaimer)) (hazard_pointers rc') = hazard_pointers ex1_reclaimer
      \<and> length (hazard_pointers rc') = max (length (hazard_pointers ex1_reclaimer)) (nat 1 + 1))
   \<and> MarkHazard 1 7 0 ex1_list ex1_reclaimer =
     Inr (ex1_list\<lparr>slots := [\<lparr>flag = True, ptr = 7\<rparr>, \<lparr>flag = True, ptr = nullptr\<rparr>, \<lparr>flag = True, ptr = 9\<rparr>],
             size_count := 2\<rparr>,
          ex1_reclaimer\<lparr>hazard_pointers := [1, 2]\<rparr>,
          [TestAndSet 1, TestAndSet 0, NewSlot 2, TestAndSet 2, FetchAddSize, CasHead True, StorePtr 2 7])"
proof -
  have "(0::int) \<le> 1" and "1 \<le> int (length (hazard_pointers ex1_reclaimer))" and "(1::int) < 2 ^ 31"
    and "\<forall>hp\<in>set (hazard_pointers ex1_reclaimer). hp < length (slots ex1_list)" and "slots ex1_list \<noteq> []"
    by (simp_all add: ex1_list_def ex1_reclaimer_def)
  from MarkHazard_publishes [OF this, of 7 0]
  have "\<exists>l' rc' es p. MarkHazard 1 7 0 ex1_list ex1_reclaimer = Inr (l', rc', es)
      \<and> nat 1 < length (hazard_pointers rc')
      \<and> hp_at (slots l') (hazard_pointers rc' ! nat 1) = Some p \<and> ptr p = 7
      \<and> last es = StorePtr (hazard_pointers rc' ! nat 1) 7
      \<and> take (length (hazard_pointers ex1_reclaimer)) (hazard_pointers rc') = hazard_pointers ex1_reclaimer
      \<and> length (hazard_pointers rc') = max (length (hazard_pointers ex1_reclaimer)) (nat 1 + 1)" .
  moreover have "MarkHazard 1 7 0 ex1_list ex1_reclaimer =
     Inr (ex1_list\<lparr>slots := [\<lparr>flag = True, ptr = 7\<rparr>, \<lparr>flag = True, ptr = nullptr\<rparr>, \<lparr>flag = True, ptr = 9\<rparr>],
             size_count := 2\<rparr>,
          ex1_reclaimer\<lparr>hazard_pointers := [1, 2]\<rparr>,
          [TestAndSet 1, TestAndSet 0, NewSlot 2, TestAndSet 2, FetchAddSize, CasHead True, StorePtr 2 7])"
    by (simp add: MarkHazard_def TryAcquireHazardPointer_def acquired_slot_def ex1_list_def ex1_reclaimer_def
        to_size_t_def HazardPointer_ctor_def Let_def numeral_2_eq_2)
  ultimately show ?thesis by (rule conjI)
qed

text \<open>
  C6, as stated, fails: with no slot acquired the index \<open>1\<close> does not exceed the number of
  indices in use plus one, and the assertion \<^verbatim>\<open>index <= hazard_pointers_.size()\<close> fails.
\<close>

theorem MarkHazard_next_but_one_counterexample:
  "1 \<le> int (length (hazard_pointers Reclaimer_ctor)) + 1
   \<and> MarkHazard 1 7 0 HazardPointerList_ctor Reclaimer_ctor = Inl AssertionFailed"
  by (simp add: MarkHazard_def TryAcquireHazardPointer_def Reclaimer_ctor_def to_size_t_def)

section \<open>The invariants: one call of one thread\<close>

lemma all_slots_iff: "(\<forall>p\<in>set sl. P p) \<longleftrightarrow> (\<forall>h p. hp_at sl h = Some p \<longrightarrow> P p)"
proof
  assume "\<forall>p\<in>set sl. P p"
  then show "\<forall>h p. hp_at sl h = Some p \<longrightarrow> P p" using hp_at_in_set by blast
next
  assume r: "\<forall>h p. hp_at sl h = Some p \<longrightarrow> P p"
  show "\<forall>p\<in>set sl. P p"
  proof
    fix p assume "p \<in> set sl"
    then obtain h where "hp_at sl h = Some p" using in_set_hp_at by blast
    with r show "P p" by blast
  qed
qed

lemma idle_null_iff:
  "(\<forall>p\<in>set sl. \<not> flag p \<longrightarrow> ptr p = nullptr)
    \<longleftrightarrow> (\<forall>h p. hp_at sl h = Some p \<longrightarrow> \<not> flag p \<longrightarrow> ptr p = nullptr)"
  by (rule all_slots_iff)

lemma hp_update_Nil_iff [simp]: "hp_update f r sl = [] \<longleftrightarrow> sl = []"
  by (cases sl) simp_all

lemma hp_at_Cons_other: "h \<noteq> length sl \<Longrightarrow> hp_at (p # sl) h = hp_at sl h"
  by simp

lemma step_ok_refl: "registry_ok l \<Longrightarrow> owned_ok (slots l) rc \<Longrightarrow> step_ok l rc l rc"
  by (simp add: step_ok_def)

lemma TryAcquireHazardPointer_step:
  assumes reg: "registry_ok l" and own: "owned_ok (slots l) rc"
    and res: "TryAcquireHazardPointer index k l rc = Inr (l', rc', es)"
  shows "step_ok l rc l' rc'"
proof -
  from res have le: "to_size_t index \<le> length (hazard_pointers rc)"
    by (auto simp: TryAcquireHazardPointer_def split: if_splits)
  from reg have chain: "slots l \<noteq> []" by (simp add: registry_ok_def)
  from reg have idle: "\<forall>h p. hp_at (slots l) h = Some p \<longrightarrow> \<not> flag p \<longrightarrow> ptr p = nullptr"
    unfolding registry_ok_def idle_null_iff by blast
  from own have flagged: "\<forall>h\<in>set (hazard_pointers rc). \<exists>p. hp_at (slots l) h = Some p \<and> flag p"
    by (simp add: owned_ok_def)
  from le chain show ?thesis
  proof (cases rule: TryAcquireHazardPointer_cases [where k = k])
    case in_use
    with res reg own show ?thesis by (simp add: step_ok_refl)
  next
    case (reuse hp p)
    let ?sl = "hp_update (\<lambda>p. p\<lparr>flag := True\<rparr>) hp (slots l)"
    from reuse(4) res have l': "l' = l\<lparr>slots := ?sl\<rparr>"
      and rc': "rc' = rc\<lparr>hazard_pointers := hazard_pointers rc @ [hp]\<rparr>" by simp_all
    from reuse(2,3) flagged have fresh: "hp \<notin> set (hazard_pointers rc)" by auto
    have same: "hp_at ?sl hp = Some (p\<lparr>flag := True\<rparr>)"
      using reuse(2) by (rule hp_at_hp_update_same)
    have other: "hp_at ?sl h = hp_at (slots l) h" if "h \<noteq> hp" for h
      using that by (rule hp_at_hp_update_other)
    have "registry_ok l'"
      unfolding registry_ok_def idle_null_iff
    proof (intro conjI allI impI)
      from chain show "slots l' \<noteq> []" by (simp add: l')
      from reg show "size_count l' + 1 = length (slots l')" by (simp add: l' registry_ok_def)
    next
      fix h q assume q: "hp_at (slots l') h = Some q" "\<not> flag q"
      show "ptr q = nullptr"
      proof (cases "h = hp")
        case True
        with q same show ?thesis by (auto simp: l')
      next
        case False
        with q other idle show ?thesis by (simp add: l')
      qed
    qed
    moreover have "owned_ok (slots l') rc'"
    proof -
      have "\<exists>q. hp_at ?sl h = Some q \<and> flag q" if "h \<in> set (hazard_pointers rc) \<or> h = hp" for h
      proof (cases "h = hp")
        case True
        with same show ?thesis by simp
      next
        case False
        with that flagged other [OF False] show ?thesis by simp
      qed
      then have "\<forall>h\<in>set (hazard_pointers rc @ [hp]). \<exists>q. hp_at ?sl h = Some q \<and> flag q"
        by simp
      moreover from own fresh have "distinct (hazard_pointers rc @ [hp])"
        by (simp add: owned_ok_def)
      ultimately show ?thesis using own by (simp add: owned_ok_def l' rc')
    qed
    moreover have "\<forall>h. h \<notin> set (hazard_pointers rc') \<longrightarrow> hp_at (slots l') h = hp_at (slots l) h"
      using other by (simp add: l' rc')
    moreover have "\<forall>h\<in>set (hazard_pointers rc'). h \<notin> set (hazard_pointers rc) \<longrightarrow>
           (\<forall>p. hp_at (slots l) h = Some p \<longrightarrow> \<not> flag p)"
      using reuse(2,3) by (auto simp: rc')
    ultimately show ?thesis by (simp add: step_ok_def)
  next
    case alloc
    let ?new = "\<lparr>flag = True, ptr = nullptr\<rparr>"
    let ?hp = "length (slots l)"
    from alloc(3) res have l': "l' = l\<lparr>slots := ?new # slots l, size_count := size_count l + 1\<rparr>"
      and rc': "rc' = rc\<lparr>hazard_pointers := hazard_pointers rc @ [?hp]\<rparr>" by simp_all
    from flagged have fresh: "?hp \<notin> set (hazard_pointers rc)"
      using hp_at_Some_less by blast
    have "registry_ok l'"
      using reg by (auto simp: registry_ok_def l')
    moreover have "owned_ok (slots l') rc'"
    proof -
      have "\<exists>p. hp_at (?new # slots l) h = Some p \<and> flag p" if "h \<in> set (hazard_pointers rc)" for h
      proof -
        from that flagged obtain p where "hp_at (slots l) h = Some p" "flag p" by blast
        moreover from that fresh have "h \<noteq> ?hp" by blast
        ultimately show ?thesis by simp
      qed
      with own fresh show ?thesis by (auto simp: owned_ok_def l' rc')
    qed
    moreover have "\<forall>h. h \<notin> set (hazard_pointers rc') \<longrightarrow> hp_at (slots l') h = hp_at (slots l) h"
      by (simp add: l' rc')
    moreover have "\<forall>h\<in>set (hazard_pointers rc'). h \<notin> set (hazard_pointers rc) \<longrightarrow>
           (\<forall>p. hp_at (slots l) h = Some p \<longrightarrow> \<not> flag p)"
      using hp_at_Some_less by (fastforce simp: rc')
    ultimately show ?thesis by (simp add: step_ok_def)
  qed
qed

lemma step_ok_store:
  assumes step: "step_ok l rc lm rcm" and hp: "hp \<in> set (hazard_pointers rcm)"
  shows "step_ok l rc (lm\<lparr>slots := hp_update (\<lambda>p. p\<lparr>ptr := a\<rparr>) hp (slots lm)\<rparr>) rcm"
proof -
  let ?sl = "hp_update (\<lambda>p. p\<lparr>ptr := a\<rparr>) hp (slots lm)"
  from step have reg: "registry_ok lm" and own: "owned_ok (slots lm) rcm"
    and frame: "\<forall>h. h \<notin> set (hazard_pointers rcm) \<longrightarrow> hp_at (slots lm) h = hp_at (slots l) h"
    and new: "\<forall>h\<in>set (hazard_pointers rcm). h \<notin> set (hazard_pointers rc) \<longrightarrow>
           (\<forall>p. hp_at (slots l) h = Some p \<longrightarrow> \<not> flag p)"
    by (simp_all add: step_ok_def)
  from own hp obtain p where p: "hp_at (slots lm) hp = Some p" "flag p"
    by (auto simp: owned_ok_def)
  have same: "hp_at ?sl hp = Some (p\<lparr>ptr := a\<rparr>)"
    using p(1) by (rule hp_at_hp_update_same)
  have other: "hp_at ?sl h = hp_at (slots lm) h" if "h \<noteq> hp" for h
    using that by (rule hp_at_hp_update_other)
  from reg have idle: "\<forall>h p. hp_at (slots lm) h = Some p \<longrightarrow> \<not> flag p \<longrightarrow> ptr p = nullptr"
    unfolding registry_ok_def idle_null_iff by blast
  have "registry_ok (lm\<lparr>slots := ?sl\<rparr>)"
    unfolding registry_ok_def idle_null_iff
  proof (intro conjI allI impI)
    from reg show "slots (lm\<lparr>slots := ?sl\<rparr>) \<noteq> []" by (simp add: registry_ok_def)
    from reg show "size_count (lm\<lparr>slots := ?sl\<rparr>) + 1 = length (slots (lm\<lparr>slots := ?sl\<rparr>))"
      by (simp add: registry_ok_def)
  next
    fix h q assume q: "hp_at (slots (lm\<lparr>slots := ?sl\<rparr>)) h = Some q" "\<not> flag q"
    show "ptr q = nullptr"
    proof (cases "h = hp")
      case True
      with q same p(2) show ?thesis by auto
    next
      case False
      with q other idle show ?thesis by simp
    qed
  qed
  moreover have "owned_ok ?sl rcm"
  proof -
    have "\<exists>q. hp_at ?sl h = Some q \<and> flag q" if "h \<in> set (hazard_pointers rcm)" for h
    proof (cases "h = hp")
      case True
      with same p(2) show ?thesis by simp
    next
      case False
      from that own obtain q where "hp_at (slots lm) h = Some q" "flag q"
        by (auto simp: owned_ok_def)
      with other [OF False] show ?thesis by simp
    qed
    with own show ?thesis by (simp add: owned_ok_def)
  qed
  moreover have "\<forall>h. h \<notin> set (hazard_pointers rcm) \<longrightarrow> hp_at ?sl h = hp_at (slots l) h"
  proof (intro allI impI)
    fix h assume h: "h \<notin> set (hazard_pointers rcm)"
    with hp have "h \<noteq> hp" by blast
    with other frame h show "hp_at ?sl h = hp_at (slots l) h" by simp
  qed
  ultimately show ?thesis using new by (simp add: step_ok_def)
qed

lemma acquired_slot_Inr:
  "acquired_slot index l rc = Inr hp \<Longrightarrow>
     hp \<in> set (hazard_pointers rc) \<and> hp = hazard_pointers rc ! to_size_t index
     \<and> to_size_t index < length (hazard_pointers rc)"
  by (auto simp: acquired_slot_def split: if_splits option.splits)

lemma MarkHazard_Inr:
  assumes "MarkHazard index a k l rc = Inr (l', rc', es)"
  obtains lm es1 hp where "TryAcquireHazardPointer index k l rc = Inr (lm, rc', es1)"
    and "hp \<in> set (hazard_pointers rc')"
    and "l' = lm\<lparr>slots := hp_update (\<lambda>p. p\<lparr>ptr := a\<rparr>) hp (slots lm)\<rparr>"
proof -
  from assms obtain x where x: "TryAcquireHazardPointer index k l rc = Inr x"
    by (cases "TryAcquireHazardPointer index k l rc") (simp_all add: MarkHazard_def)
  obtain lm rcm es1 where t: "TryAcquireHazardPointer index k l rc = Inr (lm, rcm, es1)"
    using x by (cases x) simp
  from assms t obtain hp where s: "acquired_slot index lm rcm = Inr hp"
    by (cases "acquired_slot index lm rcm") (simp_all add: MarkHazard_def)
  from assms t s have "l' = lm\<lparr>slots := hp_update (\<lambda>p. p\<lparr>ptr := a\<rparr>) hp (slots lm)\<rparr>"
    and "rc' = rcm"
    by (simp_all add: MarkHazard_def)
  moreover from s have "hp \<in> set (hazard_pointers rcm)" by (simp add: acquired_slot_Inr)
  ultimately show ?thesis using t that by simp
qed

lemma GetHazardPtr_Inr:
  assumes "GetHazardPtr index k l rc = Inr (a, l', rc', es)"
  obtains es1 where "TryAcquireHazardPointer index k l rc = Inr (l', rc', es1)"
proof -
  from assms obtain x where x: "TryAcquireHazardPointer index k l rc = Inr x"
    by (cases "TryAcquireHazardPointer index k l rc") (simp_all add: GetHazardPtr_def)
  obtain lm rcm es1 where t: "TryAcquireHazardPointer index k l rc = Inr (lm, rcm, es1)"
    using x by (cases x) simp
  from assms t obtain hp where s: "acquired_slot index lm rcm = Inr hp"
    by (cases "acquired_slot index lm rcm") (simp_all add: GetHazardPtr_def)
  from assms t s have "l' = lm" and "rc' = rcm"
    by (cases "hp_at (slots lm) hp"; simp add: GetHazardPtr_def)+
  with t that show ?thesis by simp
qed

lemma MarkHazard_step:
  assumes reg: "registry_ok l" and own: "owned_ok (slots l) rc"
    and res: "MarkHazard index a k l rc = Inr (l', rc', es)"
  shows "step_ok l rc l' rc'"
proof -
  from res obtain lm es1 hp where t: "TryAcquireHazardPointer index k l rc = Inr (lm, rc', es1)"
    and hp: "hp \<in> set (hazard_pointers rc')"
    and l': "l' = lm\<lparr>slots := hp_update (\<lambda>p. p\<lparr>ptr := a\<rparr>) hp (slots lm)\<rparr>"
    by (rule MarkHazard_Inr)
  from reg own t have step: "step_ok l rc lm rc'" by (rule TryAcquireHazardPointer_step)
  from step_ok_store [OF step hp, of a] show ?thesis by (simp add: l')
qed

lemma GetHazardPtr_step:
  assumes reg: "registry_ok l" and own: "owned_ok (slots l) rc"
    and res: "GetHazardPtr index k l rc = Inr (a, l', rc', es)"
  shows "step_ok l rc l' rc'"
proof -
  from res obtain es1 where "TryAcquireHazardPointer index k l rc = Inr (l', rc', es1)"
    by (rule GetHazardPtr_Inr)
  with reg own show ?thesis by (rule TryAcquireHazardPointer_step)
qed

lemma step_ok_private:
  assumes "registry_ok l" and "owned_ok (slots l) rc"
    and "hazard_pointers rc' = hazard_pointers rc" and "owned_ok (slots l) rc'"
  shows "step_ok l rc l rc'"
  using assms by (simp add: step_ok_def)

lemma map_insert_keys:
  assumes "distinct (map fst m)" and "\<forall>e\<in>set m. node_ptr (snd e) = fst e" and "node_ptr (snd kv) = fst kv"
  shows "distinct (map fst (map_insert kv m)) \<and> (\<forall>e\<in>set (map_insert kv m). node_ptr (snd e) = fst e)"
  using assms by (auto simp: map_insert_def)

lemma ReclaimLater_step:
  assumes reg: "registry_ok l" and own: "owned_ok (slots l) rc"
    and res: "ReclaimLater a func l rc = Inr (l', rc', es)"
  shows "step_ok l rc l' rc'"
proof -
  from own have "reclaim_pool rc \<noteq> []" by (simp add: owned_ok_def)
  then obtain node pool' where pop: "Pop (reclaim_pool rc) = Inr (node, pool')" "pool' \<noteq> []"
    using Pop_nonempty by blast
  let ?kv = "(a, node\<lparr>node_ptr := a, delete_func := func\<rparr>)"
  from pop(1) res have l': "l' = l"
    and rc': "rc' = rc\<lparr>reclaim_pool := pool', reclaim_map := map_insert ?kv (reclaim_map rc)\<rparr>"
    by (simp_all add: ReclaimLater_def)
  from own have "distinct (map fst (map_insert ?kv (reclaim_map rc)))
      \<and> (\<forall>e\<in>set (map_insert ?kv (reclaim_map rc)). node_ptr (snd e) = fst e)"
    by (intro map_insert_keys) (simp_all add: owned_ok_def)
  with own pop(2) have "owned_ok (slots l) rc'" by (simp add: owned_ok_def rc')
  with reg own show ?thesis unfolding l' by (intro step_ok_private) (simp_all add: rc')
qed

lemma reclaim_loop_Inr:
  "reclaim_loop S m pool = Inr (m', pool', es) \<Longrightarrow>
     m' = filter (\<lambda>e. fst e \<in> S) m \<and> (pool \<noteq> [] \<longrightarrow> pool' \<noteq> [])"
proof (induction m arbitrary: pool m' pool' es)
  case Nil
  then show ?case by simp
next
  case (Cons e m)
  obtain a node where e: "e = (a, node)" by (cases e)
  show ?case
  proof (cases "a \<in> S")
    case True
    with Cons.prems e obtain m1 es1 where r: "reclaim_loop S m pool = Inr (m1, pool', es1)"
      and m': "m' = (a, node) # m1"
      by (auto split: sum.splits)
    from Cons.IH [OF r] m' True e show ?thesis by simp
  next
    case False
    with Cons.prems e obtain es1 where r: "reclaim_loop S m (Push node pool) = Inr (m', pool', es1)"
      by (auto split: sum.splits option.splits)
    from Cons.IH [OF r] False e show ?thesis by (simp add: Push_def)
  qed
qed

lemma ReclaimNoHazardPointer_step:
  assumes reg: "registry_ok l" and own: "owned_ok (slots l) rc"
    and res: "ReclaimNoHazardPointer l rc = Inr (l', rc', es)"
  shows "step_ok l rc l' rc'"
proof (cases "length (reclaim_map rc) < to_size_t kCoefficient * get_size l")
  case True
  with res reg own show ?thesis by (simp add: ReclaimNoHazardPointer_def step_ok_refl)
next
  case False
  let ?S = "not_allow_delete_set (slots l)"
  from False res have chain: "slots l \<noteq> []"
    by (auto simp: ReclaimNoHazardPointer_def split: if_splits)
  with False res obtain x where x: "reclaim_loop ?S (reclaim_map rc) (reclaim_pool rc) = Inr x"
    by (cases "reclaim_loop ?S (reclaim_map rc) (reclaim_pool rc)")
      (simp_all add: ReclaimNoHazardPointer_def)
  obtain m' pool' es1
    where loop: "reclaim_loop ?S (reclaim_map rc) (reclaim_pool rc) = Inr (m', pool', es1)"
    using x by (cases x) simp
  from False res chain loop have l': "l' = l"
    and rc': "rc' = rc\<lparr>reclaim_map := m', reclaim_pool := pool'\<rparr>"
    by (simp_all add: ReclaimNoHazardPointer_def)
  from reclaim_loop_Inr [OF loop] own
  have m': "m' = filter (\<lambda>e. fst e \<in> ?S) (reclaim_map rc)" and pool': "pool' \<noteq> []"
    by (simp_all add: owned_ok_def)
  from own have "distinct (map fst m')" and "\<forall>e\<in>set m'. node_ptr (snd e) = fst e"
    by (simp_all add: m' owned_ok_def distinct_map_filter)
  with own pool' have "owned_ok (slots l) rc'" by (simp add: owned_ok_def rc')
  with reg own show ?thesis unfolding l' by (intro step_ok_private) (simp_all add: rc')
qed

section \<open>The invariants: threads over one registry\<close>

lemma Reclaimer_ctor_ok: "owned_ok sl Reclaimer_ctor"
  by (simp add: owned_ok_def Reclaimer_ctor_def ReclaimPool_ctor_def)

lemma GetInstance_ok:
  "system_ok s \<Longrightarrow> owned_ok (slots (hazard_pointer_list s)) (GetInstance s t)"
  by (cases "reclaimers s t") (auto simp: GetInstance_def system_ok_def Reclaimer_ctor_ok)

lemma GetInstance_disjoint:
  assumes "system_ok s" and "t' \<noteq> t" and "reclaimers s t' = Some rc2"
  shows "set (hazard_pointers (GetInstance s t)) \<inter> set (hazard_pointers rc2) = {}"
proof (cases "reclaimers s t")
  case None
  then show ?thesis by (simp add: GetInstance_def Reclaimer_ctor_def)
next
  case (Some rc)
  with assms have "set (hazard_pointers rc) \<inter> set (hazard_pointers rc2) = {}"
    unfolding system_ok_def by blast
  with Some show ?thesis by (simp add: GetInstance_def)
qed

lemma commit_ok:
  assumes ok: "system_ok s" and step: "step_ok (hazard_pointer_list s) (GetInstance s t) l' rc'"
  shows "system_ok (s\<lparr>hazard_pointer_list := l', reclaimers := (reclaimers s)(t := Some rc'),
                       history := h\<rparr>)"
proof -
  let ?l = "hazard_pointer_list s"
  let ?rc = "GetInstance s t"
  from step have reg': "registry_ok l'" and own': "owned_ok (slots l') rc'"
    and frame: "\<forall>h. h \<notin> set (hazard_pointers rc') \<longrightarrow> hp_at (slots l') h = hp_at (slots ?l) h"
    and new: "\<forall>h\<in>set (hazard_pointers rc'). h \<notin> set (hazard_pointers ?rc) \<longrightarrow>
           (\<forall>p. hp_at (slots ?l) h = Some p \<longrightarrow> \<not> flag p)"
    by (simp_all add: step_ok_def)
  have others: "set (hazard_pointers rc') \<inter> set (hazard_pointers rc2) = {} \<and> owned_ok (slots l') rc2"
    if t2: "t2 \<noteq> t" "reclaimers s t2 = Some rc2" for t2 rc2
  proof -
    from ok t2 have own2: "owned_ok (slots ?l) rc2" unfolding system_ok_def by blast
    from ok t2 have dis: "set (hazard_pointers ?rc) \<inter> set (hazard_pointers rc2) = {}"
      by (rule GetInstance_disjoint)
    have out: "h \<notin> set (hazard_pointers rc')" if h: "h \<in> set (hazard_pointers rc2)" for h
    proof
      assume in': "h \<in> set (hazard_pointers rc')"
      from h dis have "h \<notin> set (hazard_pointers ?rc)" by blast
      with in' new have "\<forall>p. hp_at (slots ?l) h = Some p \<longrightarrow> \<not> flag p" by blast
      moreover from own2 h obtain p where "hp_at (slots ?l) h = Some p" "flag p"
        by (auto simp: owned_ok_def)
      ultimately show False by blast
    qed
    then have "set (hazard_pointers rc') \<inter> set (hazard_pointers rc2) = {}" by blast
    moreover have "\<forall>h\<in>set (hazard_pointers rc2). \<exists>p. hp_at (slots l') h = Some p \<and> flag p"
    proof
      fix h assume h: "h \<in> set (hazard_pointers rc2)"
      with own2 obtain p where "hp_at (slots ?l) h = Some p" "flag p"
        by (auto simp: owned_ok_def)
      with out [OF h] frame show "\<exists>p. hp_at (slots l') h = Some p \<and> flag p" by simp
    qed
    with own2 have "owned_ok (slots l') rc2" by (simp add: owned_ok_def)
    ultimately show ?thesis by blast
  qed
  let ?s = "s\<lparr>hazard_pointer_list := l', reclaimers := (reclaimers s)(t := Some rc'), history := h\<rparr>"
  have "\<forall>t0 rc0. reclaimers ?s t0 = Some rc0 \<longrightarrow> owned_ok (slots (hazard_pointer_list ?s)) rc0"
    using own' others by auto
  moreover have "\<forall>ta tb rca rcb. ta \<noteq> tb \<and> reclaimers ?s ta = Some rca \<and> reclaimers ?s tb = Some rcb \<longrightarrow>
           set (hazard_pointers rca) \<inter> set (hazard_pointers rcb) = {}"
  proof (intro allI impI)
    fix ta tb rca rcb
    assume a: "ta \<noteq> tb \<and> reclaimers ?s ta = Some rca \<and> reclaimers ?s tb = Some rcb"
    show "set (hazard_pointers rca) \<inter> set (hazard_pointers rcb) = {}"
    proof (cases "ta = t")
      case True
      with a have "rca = rc'" "tb \<noteq> t" "reclaimers s tb = Some rcb" by auto
      with others show ?thesis by blast
    next
      case False
      show ?thesis
      proof (cases "tb = t")
        case True
        with a False have "rcb = rc'" "reclaimers s ta = Some rca" by auto
        with others False show ?thesis by blast
      next
        case tb: False
        with a False have "reclaimers s ta = Some rca" "reclaimers s tb = Some rcb" "ta \<noteq> tb" by auto
        with ok show ?thesis unfolding system_ok_def by blast
      qed
    qed
  qed
  ultimately show ?thesis using reg' by (simp add: system_ok_def)
qed

lemma hand_over_Inr:
  "hand_over hps sl = Inr (sl', es) \<Longrightarrow>
     sl' = fold (\<lambda>hp. hp_update (\<lambda>p. p\<lparr>flag := False\<rparr>) hp) hps sl
     \<and> (\<forall>hp\<in>set hps. \<exists>p. hp_at sl hp = Some p \<and> ptr p = nullptr)"
proof (induction hps arbitrary: sl sl' es)
  case Nil
  then show ?case by simp
next
  case (Cons hp hps)
  let ?sl = "hp_update (\<lambda>p. p\<lparr>flag := False\<rparr>) hp sl"
  from Cons.prems obtain p where p: "hp_at sl hp = Some p"
    by (cases "hp_at sl hp") simp_all
  with Cons.prems have null: "ptr p = nullptr" by (simp split: if_splits)
  with p Cons.prems obtain x where x: "hand_over hps ?sl = Inr x"
    by (cases "hand_over hps ?sl") simp_all
  obtain sl1 es1 where r: "hand_over hps ?sl = Inr (sl1, es1)" using x by (cases x) simp
  with p null Cons.prems have sl': "sl' = sl1" by simp
  from Cons.IH [OF r] have fold: "sl1 = fold (\<lambda>hp. hp_update (\<lambda>p. p\<lparr>flag := False\<rparr>) hp) hps ?sl"
    and rest: "\<forall>h\<in>set hps. \<exists>q. hp_at ?sl h = Some q \<and> ptr q = nullptr" by simp_all
  have "\<exists>q. hp_at sl h = Some q \<and> ptr q = nullptr" if "h \<in> set hps" for h
  proof (cases "h = hp")
    case True
    with p null show ?thesis by simp
  next
    case False
    from rest that have "\<exists>q. hp_at ?sl h = Some q \<and> ptr q = nullptr" by blast
    with False show ?thesis by (simp add: hp_at_hp_update_other)
  qed
  with p null fold sl' show ?case by simp
qed

lemma commit_Inr:
  assumes "commit s t res = Inr s'"
  obtains l' rc' es where "res = Inr (l', rc', es)"
    and "s' = s\<lparr>hazard_pointer_list := l', reclaimers := (reclaimers s)(t := Some rc'),
                 history := history s @ map (Pair t) es\<rparr>"
proof -
  from assms obtain x where x: "res = Inr x" by (cases res) (simp_all add: commit_def)
  obtain l' rc' es where "x = (l', rc', es)" by (cases x)
  with x assms that show ?thesis by (simp add: commit_def)
qed

lemma system_init_ok: "system_ok system_init"
  by (simp add: system_ok_def system_init_def registry_ok_def HazardPointerList_ctor_def
      HazardPointer_ctor_def)

section \<open>The entries of the map\<close>

text \<open>
  The scan and the destructor are stated for a map whose nodes hold their key and a destroyer.
  The map starts empty, \<^verbatim>\<open>ReclaimLater\<close> given a destroyer that is not empty keeps it so,
  and no other call adds an entry.
\<close>

lemma TryAcquireHazardPointer_private:
  "TryAcquireHazardPointer index k l rc = Inr (l', rc', es) \<Longrightarrow>
     reclaim_map rc' = reclaim_map rc \<and> reclaim_pool rc' = reclaim_pool rc"
  by (auto simp: TryAcquireHazardPointer_def Let_def split: if_splits option.splits)

lemma MarkHazard_private:
  assumes "MarkHazard index a k l rc = Inr (l', rc', es)"
  shows "reclaim_map rc' = reclaim_map rc \<and> reclaim_pool rc' = reclaim_pool rc"
proof -
  from assms obtain lm es1 where "TryAcquireHazardPointer index k l rc = Inr (lm, rc', es1)"
    by (rule MarkHazard_Inr)
  then show ?thesis by (rule TryAcquireHazardPointer_private)
qed

lemma GetHazardPtr_private:
  assumes "GetHazardPtr index k l rc = Inr (a, l', rc', es)"
  shows "reclaim_map rc' = reclaim_map rc \<and> reclaim_pool rc' = reclaim_pool rc"
proof -
  from assms obtain es1 where "TryAcquireHazardPointer index k l rc = Inr (l', rc', es1)"
    by (rule GetHazardPtr_Inr)
  then show ?thesis by (rule TryAcquireHazardPointer_private)
qed

lemma ReclaimLater_pending:
  assumes res: "ReclaimLater a (Some f) l rc = Inr (l', rc', es)"
    and pending: "\<forall>e\<in>set (reclaim_map rc). node_ptr (snd e) = fst e \<and> delete_func (snd e) \<noteq> None"
  shows "\<forall>e\<in>set (reclaim_map rc'). node_ptr (snd e) = fst e \<and> delete_func (snd e) \<noteq> None"
proof -
  from res obtain x where x: "Pop (reclaim_pool rc) = Inr x"
    by (cases "Pop (reclaim_pool rc)") (simp_all add: ReclaimLater_def)
  obtain node pool' where "x = (node, pool')" by (cases x)
  with x res have "reclaim_map rc' =
      map_insert (a, node\<lparr>node_ptr := a, delete_func := Some f\<rparr>) (reclaim_map rc)"
    by (auto simp: ReclaimLater_def)
  with pending show ?thesis by (auto simp: map_insert_def)
qed

lemma ReclaimNoHazardPointer_pending:
  assumes res: "ReclaimNoHazardPointer l rc = Inr (l', rc', es)"
    and pending: "\<forall>e\<in>set (reclaim_map rc). node_ptr (snd e) = fst e \<and> delete_func (snd e) \<noteq> None"
  shows "\<forall>e\<in>set (reclaim_map rc'). node_ptr (snd e) = fst e \<and> delete_func (snd e) \<noteq> None"
proof (cases "length (reclaim_map rc) < to_size_t kCoefficient * get_size l")
  case True
  with res pending show ?thesis by (simp add: ReclaimNoHazardPointer_def)
next
  case False
  let ?S = "not_allow_delete_set (slots l)"
  from False res have chain: "slots l \<noteq> []"
    by (auto simp: ReclaimNoHazardPointer_def split: if_splits)
  with False res obtain x where x: "reclaim_loop ?S (reclaim_map rc) (reclaim_pool rc) = Inr x"
    by (cases "reclaim_loop ?S (reclaim_map rc) (reclaim_pool rc)")
      (simp_all add: ReclaimNoHazardPointer_def)
  obtain m' pool' es1
    where loop: "reclaim_loop ?S (reclaim_map rc) (reclaim_pool rc) = Inr (m', pool', es1)"
    using x by (cases x) simp
  from False res chain loop have "reclaim_map rc' = m'"
    by (auto simp: ReclaimNoHazardPointer_def)
  with reclaim_loop_Inr [OF loop] pending show ?thesis by simp
qed

section \<open>The size of the registry, first use, and the threshold\<close>

lemma TryAcquireHazardPointer_size:
  "TryAcquireHazardPointer index k l rc = Inr (l', rc', es) \<Longrightarrow> size_count l \<le> size_count l'"
  by (auto simp: TryAcquireHazardPointer_def Let_def split: if_splits option.splits)

lemma MarkHazard_size:
  assumes "MarkHazard index a k l rc = Inr (l', rc', es)"
  shows "size_count l \<le> size_count l'"
proof -
  from assms obtain lm es1 hp where "TryAcquireHazardPointer index k l rc = Inr (lm, rc', es1)"
    and "l' = lm\<lparr>slots := hp_update (\<lambda>p. p\<lparr>ptr := a\<rparr>) hp (slots lm)\<rparr>"
    by (rule MarkHazard_Inr)
  then show ?thesis using TryAcquireHazardPointer_size by fastforce
qed

lemma GetHazardPtr_size:
  assumes "GetHazardPtr index k l rc = Inr (a, l', rc', es)"
  shows "size_count l \<le> size_count l'"
proof -
  from assms obtain es1 where "TryAcquireHazardPointer index k l rc = Inr (l', rc', es1)"
    by (rule GetHazardPtr_Inr)
  then show ?thesis by (rule TryAcquireHazardPointer_size)
qed

lemma ReclaimLater_list: "ReclaimLater a func l rc = Inr (l', rc', es) \<Longrightarrow> l' = l"
  by (cases "Pop (reclaim_pool rc)") (auto simp: ReclaimLater_def)

lemma ReclaimNoHazardPointer_list: "ReclaimNoHazardPointer l rc = Inr (l', rc', es) \<Longrightarrow> l' = l"
  by (cases "reclaim_loop (not_allow_delete_set (slots l)) (reclaim_map rc) (reclaim_pool rc)")
    (auto simp: ReclaimNoHazardPointer_def split: if_splits)

lemma idle_slot_null:
  assumes "registry_ok l" and "hp_at (slots l) hp = Some p" and "\<not> flag p"
  shows "ptr p = nullptr"
  using assms unfolding registry_ok_def idle_null_iff by blast

lemma ReclaimNoHazardPointer_below_threshold:
  "length (reclaim_map rc) < 4 * get_size l \<Longrightarrow> ReclaimNoHazardPointer l rc = Inr (l, rc, [])"
  by (simp add: ReclaimNoHazardPointer_def kCoefficient_value)

section \<open>Waiting among the other threads\<close>

text \<open>The wait, step by step; alone, a thread that has to wait waits for ever.\<close>

lemma wait_no_hazard_done:
  "slots (hazard_pointer_list s) \<noteq> [] \<Longrightarrow> \<not> Hazard (slots (hazard_pointer_list s)) a \<Longrightarrow>
     wait_no_hazard t a sched s =
       Some (Inr (sched, log_events t (Hazard_trace (slots (hazard_pointer_list s)) a) s))"
  by (subst wait_no_hazard.simps) simp

lemma wait_no_hazard_yield:
  "slots (hazard_pointer_list s) \<noteq> [] \<Longrightarrow> Hazard (slots (hazard_pointer_list s)) a \<Longrightarrow>
     wait_no_hazard t a sched s =
       (case exec_calls (case sched of [] \<Rightarrow> [] | cs # rest \<Rightarrow> cs)
               (log_events t (Hazard_trace (slots (hazard_pointer_list s)) a @ [Yield]) s) of
          Inl e \<Rightarrow> Some (Inl e)
        | Inr s' \<Rightarrow> wait_no_hazard t a (tl sched) s')"
  by (subst wait_no_hazard.simps) simp

lemma wait_no_hazard_alone:
  assumes "Hazard (slots (hazard_pointer_list s)) a" and "slots (hazard_pointer_list s) \<noteq> []"
  shows "wait_no_hazard t a [] s = None"
proof (rule ccontr)
  assume "wait_no_hazard t a [] s \<noteq> None"
  then obtain r where w: "wait_no_hazard t a [] s = Some r" by auto
  define P where "P = (\<lambda>(t' :: tid) a' (sched :: call list list) (s0 :: system) (r :: error + call list list \<times> system).
      sched = [] \<longrightarrow> slots (hazard_pointer_list s0) \<noteq> [] \<longrightarrow> \<not> Hazard (slots (hazard_pointer_list s0)) a')"
  have "P t a [] s r"
  proof (rule wait_no_hazard.raw_induct [where P = P, OF _ w])
    fix wait :: "tid \<Rightarrow> addr \<Rightarrow> call list list \<Rightarrow> system \<Rightarrow> (error + call list list \<times> system) option"
    fix t' a' sched s r
    assume IH: "\<And>t a sched s r. wait t a sched s = Some r \<Longrightarrow> P t a sched s r"
      and body: "(if slots (hazard_pointer_list s) = [] then Some (Inl NullDereference)
          else if Hazard (slots (hazard_pointer_list s)) a' then
            (case exec_calls (case sched of [] \<Rightarrow> [] | cs # rest \<Rightarrow> cs)
                    (log_events t' (Hazard_trace (slots (hazard_pointer_list s)) a' @ [Yield]) s) of
               Inl e \<Rightarrow> Some (Inl e)
             | Inr s' \<Rightarrow> wait t' a' (tl sched) s')
          else Some (Inr (sched, log_events t' (Hazard_trace (slots (hazard_pointer_list s)) a') s))) = Some r"
    show "P t' a' sched s r"
      unfolding P_def
    proof (intro impI notI)
      assume e: "sched = []" and chain: "slots (hazard_pointer_list s) \<noteq> []"
        and h: "Hazard (slots (hazard_pointer_list s)) a'"
      let ?s1 = "log_events t' (Hazard_trace (slots (hazard_pointer_list s)) a' @ [Yield]) s"
      from body e chain h have "wait t' a' [] ?s1 = Some r" by simp
      from IH [OF this] chain h show False by (simp add: P_def log_events_def)
    qed
  qed
  with assms show False by (simp add: P_def)
qed

lemma quiet_append [simp]: "quiet (es @ es') \<longleftrightarrow> quiet es \<and> quiet es'"
  by (auto simp: quiet_def)

lemma quiet_Nil [simp]: "quiet []"
  by (simp add: quiet_def)

lemma quiet_Hazard_trace [simp]: "quiet (Hazard_trace sl a)"
  by (induction sl) (auto simp: quiet_def)

lemma quiet_Yield [simp]: "quiet [Yield]"
  by (simp add: quiet_def)

lemma inert_silent: "inert e \<Longrightarrow> silent e"
  by (cases e) simp_all

lemma inert_quiet: "\<forall>e\<in>set es. inert e \<Longrightarrow> quiet es"
  by (simp add: quiet_def inert_silent)

lemma inert_Hazard_trace [simp]: "e \<in> set (Hazard_trace sl a) \<Longrightarrow> inert e"
  by (induction sl) (auto split: if_splits)

lemma slots_log_events [simp]:
  "hazard_pointer_list (log_events t es s) = hazard_pointer_list s"
  "reclaimers (log_events t es s) = reclaimers s"
  "history (log_events t es s) = history s @ map (Pair t) es"
  by (simp_all add: log_events_def)

lemma exec_calls_Cons_Inr:
  assumes "exec_calls (c # cs) s = Inr s'"
  obtains s1 where "exec_call c s = Inr s1" and "exec_calls cs s1 = Inr s'"
  using assms by (cases "exec_call c s") simp_all

lemma exec_calls_inv_on:
  assumes "exec_calls cs s = Inr s'" and "I s" and "\<forall>c\<in>set cs. C c"
    and step: "\<And>c s s'. C c \<Longrightarrow> I s \<Longrightarrow> exec_call c s = Inr s' \<Longrightarrow> I s'"
  shows "I s'"
  using assms(1,2,3)
proof (induction cs arbitrary: s)
  case Nil
  then show ?case by simp
next
  case (Cons c cs)
  from Cons.prems(1) obtain s1 where c: "exec_call c s = Inr s1" and r: "exec_calls cs s1 = Inr s'"
    by (rule exec_calls_Cons_Inr)
  from Cons.prems(3) have "C c" by simp
  from this Cons.prems(2) c have "I s1" by (rule step)
  with r Cons.prems(3) show ?case by (intro Cons.IH) simp_all
qed

lemma exec_calls_inv:
  assumes "exec_calls cs s = Inr s'" and "I s"
    and step: "\<And>c s s'. I s \<Longrightarrow> exec_call c s = Inr s' \<Longrightarrow> I s'"
  shows "I s'"
  using assms(1,2) by (rule exec_calls_inv_on [where C = "\<lambda>c. True"]) (simp_all add: step)

text \<open>
  An invariant kept by the calls the other threads make while a thread waits, and by what the
  waiting thread logs. When the wait is over no slot of the chain holds the address.
\<close>

lemma wait_no_hazard_inv_on:
  assumes w: "wait_no_hazard t a sched s = Some (Inr (sched', s'))"
    and I: "I s"
    and sched: "\<forall>cs\<in>set sched. \<forall>c\<in>set cs. C c"
    and calls: "\<And>c s s'. C c \<Longrightarrow> I s \<Longrightarrow> exec_call c s = Inr s' \<Longrightarrow> I s'"
    and logs: "\<And>s es. I s \<Longrightarrow> \<forall>e\<in>set es. inert e \<Longrightarrow> I (log_events t es s)"
  shows "I s' \<and> \<not> Hazard (slots (hazard_pointer_list s')) a \<and> (\<forall>cs\<in>set sched'. \<forall>c\<in>set cs. C c)"
proof -
  define P where "P = (\<lambda>t' a' (sched :: call list list) s0 (r :: error + call list list \<times> system).
      t' = t \<longrightarrow> a' = a \<longrightarrow> I s0 \<longrightarrow> (\<forall>cs\<in>set sched. \<forall>c\<in>set cs. C c) \<longrightarrow>
      (\<forall>sched' s'. r = Inr (sched', s') \<longrightarrow>
         I s' \<and> \<not> Hazard (slots (hazard_pointer_list s')) a \<and> (\<forall>cs\<in>set sched'. \<forall>c\<in>set cs. C c)))"
  have "P t a sched s (Inr (sched', s'))"
  proof (rule wait_no_hazard.raw_induct [where P = P, OF _ w])
    fix wait :: "tid \<Rightarrow> addr \<Rightarrow> call list list \<Rightarrow> system \<Rightarrow> (error + call list list \<times> system) option"
    fix t' a' sched s r
    assume IH: "\<And>t a sched s r. wait t a sched s = Some r \<Longrightarrow> P t a sched s r"
      and body: "(if slots (hazard_pointer_list s) = [] then Some (Inl NullDereference)
          else if Hazard (slots (hazard_pointer_list s)) a' then
            (case exec_calls (case sched of [] \<Rightarrow> [] | cs # rest \<Rightarrow> cs)
                    (log_events t' (Hazard_trace (slots (hazard_pointer_list s)) a' @ [Yield]) s) of
               Inl e \<Rightarrow> Some (Inl e)
             | Inr s' \<Rightarrow> wait t' a' (tl sched) s')
          else Some (Inr (sched, log_events t' (Hazard_trace (slots (hazard_pointer_list s)) a') s))) = Some r"
    show "P t' a' sched s r"
      unfolding P_def
    proof (intro impI allI)
      fix sched' s'
      assume t': "t' = t" and a': "a' = a" and Is: "I s" and r: "r = Inr (sched', s')"
        and Cs: "\<forall>cs\<in>set sched. \<forall>c\<in>set cs. C c"
      let ?sl = "slots (hazard_pointer_list s)"
      from body r have chain: "?sl \<noteq> []" by (auto split: if_splits)
      show "I s' \<and> \<not> Hazard (slots (hazard_pointer_list s')) a \<and> (\<forall>cs\<in>set sched'. \<forall>c\<in>set cs. C c)"
      proof (cases "Hazard ?sl a")
        case False
        with body chain r a' t' have "s' = log_events t (Hazard_trace ?sl a) s" and "sched' = sched"
          by simp_all
        with False Is Cs logs [of s "Hazard_trace ?sl a"] show ?thesis by simp
      next
        case True
        let ?s1 = "log_events t (Hazard_trace ?sl a @ [Yield]) s"
        let ?cs = "case sched of [] \<Rightarrow> [] | cs # rest \<Rightarrow> cs"
        from Is have I1: "I ?s1" by (rule logs) auto
        from body chain True a' t' r obtain s2 where e: "exec_calls ?cs ?s1 = Inr s2"
          and rec: "wait t a (tl sched) s2 = Some r"
          by (cases "exec_calls ?cs ?s1") (auto split: if_splits)
        from Cs have C1: "\<forall>c\<in>set ?cs. C c" by (cases sched) simp_all
        from Cs have C2: "\<forall>cs\<in>set (tl sched). \<forall>c\<in>set cs. C c" by (cases sched) simp_all
        from e I1 C1 calls have "I s2" by (rule exec_calls_inv_on)
        with IH [OF rec] r C2 show ?thesis by (simp add: P_def)
      qed
    qed
  qed
  with I sched show ?thesis by (simp add: P_def)
qed

lemma wait_no_hazard_inv:
  assumes w: "wait_no_hazard t a sched s = Some (Inr (sched', s'))"
    and I: "I s"
    and calls: "\<And>c s s'. I s \<Longrightarrow> exec_call c s = Inr s' \<Longrightarrow> I s'"
    and logs: "\<And>s es. I s \<Longrightarrow> quiet es \<Longrightarrow> I (log_events t es s)"
  shows "I s' \<and> \<not> Hazard (slots (hazard_pointer_list s')) a"
proof -
  have "I s' \<and> \<not> Hazard (slots (hazard_pointer_list s')) a \<and> (\<forall>cs\<in>set sched'. \<forall>c\<in>set cs. True)"
  proof (rule wait_no_hazard_inv_on [where C = "\<lambda>c. True" and I = I, OF w I])
    show "\<forall>cs\<in>set sched. \<forall>c\<in>set cs. True" by simp
  next
    fix c s0 s1
    assume "I s0" "exec_call c s0 = Inr s1"
    then show "I s1" by (rule calls)
  next
    fix s0 es
    assume "I s0" and "\<forall>e\<in>set es. inert e"
    then show "I (log_events t es s0)" by (intro logs inert_quiet)
  qed
  then show ?thesis by simp
qed

lemma drain_inv:
  assumes d: "drain t m sched s = Some (Inr s')"
    and I: "I s"
    and calls: "\<And>c s s'. I s \<Longrightarrow> exec_call c s = Inr s' \<Longrightarrow> I s'"
    and logs: "\<And>s es. I s \<Longrightarrow> quiet es \<Longrightarrow> I (log_events t es s)"
    and invokes: "\<And>s f a node. I s \<Longrightarrow> (a, node) \<in> set m \<Longrightarrow> \<not> Hazard (slots (hazard_pointer_list s)) a \<Longrightarrow>
        I (log_events t [Invoke f (node_ptr node)] s)"
  shows "I s'"
  using d I invokes
proof (induction m arbitrary: sched s)
  case Nil
  then show ?case by simp
next
  case (Cons e m)
  obtain a node where e: "e = (a, node)" by (cases e)
  from Cons.prems(1) e obtain x where w: "wait_no_hazard t a sched s = Some (Inr x)"
    by (cases "wait_no_hazard t a sched s") (auto split: sum.splits)
  obtain sched1 s1 where x: "x = (sched1, s1)" by (cases x)
  from w x Cons.prems(2) calls logs
  have s1: "I s1 \<and> \<not> Hazard (slots (hazard_pointer_list s1)) a"
    by (intro wait_no_hazard_inv [where sched = sched and s = s and sched' = sched1]) simp_all
  from Cons.prems(1) e w x obtain f where f: "delete_func node = Some f"
    and rest: "drain t m sched1 (log_events t [Invoke f (node_ptr node)] s1) = Some (Inr s')"
    by (cases "delete_func node") simp_all
  from s1 e have "I (log_events t [Invoke f (node_ptr node)] s1)"
    using Cons.prems(3) [of s1 a node f] by simp
  with rest show ?case
  proof (rule Cons.IH)
    fix s0 f0 a0 node0
    assume "I s0" "(a0, node0) \<in> set m" "\<not> Hazard (slots (hazard_pointer_list s0)) a0"
    then show "I (log_events t [Invoke f0 (node_ptr node0)] s0)"
      using Cons.prems(3) [of s0 a0 node0 f0] by simp
  qed
qed

lemma Reclaimer_dtor_inv:
  assumes d: "Reclaimer_dtor t sched s = Some (Inr s')"
    and I: "I s"
    and calls: "\<And>c s s'. I s \<Longrightarrow> exec_call c s = Inr s' \<Longrightarrow> I s'"
    and logs: "\<And>s es. I s \<Longrightarrow> quiet es \<Longrightarrow> I (log_events t es s)"
    and invokes: "\<And>s0 f a node rc. I s0 \<Longrightarrow> reclaimers s t = Some rc \<Longrightarrow> (a, node) \<in> set (reclaim_map rc) \<Longrightarrow>
        \<not> Hazard (slots (hazard_pointer_list s0)) a \<Longrightarrow> I (log_events t [Invoke f (node_ptr node)] s0)"
    and handover: "\<And>rc sl' es. reclaimers s t = Some rc \<Longrightarrow>
        hand_over (hazard_pointers rc) (slots (hazard_pointer_list s)) = Inr (sl', es) \<Longrightarrow>
        I (s\<lparr>hazard_pointer_list := (hazard_pointer_list s)\<lparr>slots := sl'\<rparr>,
             reclaimers := (reclaimers s)(t := None), history := history s @ map (Pair t) es\<rparr>)"
  shows "I s'"
proof (cases "reclaimers s t")
  case None
  with d I show ?thesis by (simp add: Reclaimer_dtor_def)
next
  case (Some rc)
  with d obtain x where x: "hand_over (hazard_pointers rc) (slots (hazard_pointer_list s)) = Inr x"
    by (cases "hand_over (hazard_pointers rc) (slots (hazard_pointer_list s))")
      (simp_all add: Reclaimer_dtor_def)
  obtain sl' es where h: "hand_over (hazard_pointers rc) (slots (hazard_pointer_list s)) = Inr (sl', es)"
    using x by (cases x) simp
  let ?s = "s\<lparr>hazard_pointer_list := (hazard_pointer_list s)\<lparr>slots := sl'\<rparr>,
             reclaimers := (reclaimers s)(t := None), history := history s @ map (Pair t) es\<rparr>"
  from d Some h have dr: "drain t (reclaim_map rc) sched ?s = Some (Inr s')"
    by (simp add: Reclaimer_dtor_def)
  from Some h have "I ?s" by (rule handover)
  with dr show ?thesis
    by (rule drain_inv) (auto intro: calls logs invokes [OF _ Some])
qed

lemma run_inv:
  assumes r: "run cs s = Some (Inr s')" and I: "I s"
    and step: "\<And>c s s'. I s \<Longrightarrow> exec c s = Some (Inr s') \<Longrightarrow> I s'"
  shows "I s'"
  using r I
proof (induction cs arbitrary: s)
  case Nil
  then show ?case by simp
next
  case (Cons c cs)
  from Cons.prems(1) obtain s1 where e: "exec c s = Some (Inr s1)" and r: "run cs s1 = Some (Inr s')"
    by (cases "exec c s") (auto split: sum.splits)
  from Cons.prems(2) e have "I s1" by (rule step)
  with r show ?case by (rule Cons.IH)
qed

section \<open>The invariants: every run of the threads\<close>

lemma exec_call_ok:
  assumes ok: "system_ok s" and ex: "exec_call c s = Inr s'"
  shows "system_ok s'"
proof -
  from ok have reg: "registry_ok (hazard_pointer_list s)" by (simp add: system_ok_def)
  show ?thesis
  proof (cases c)
    case (CallMarkHazard t index a k)
    with ex have "commit s t (MarkHazard index a k (hazard_pointer_list s) (GetInstance s t)) = Inr s'"
      by simp
    then obtain l' rc' es
      where res: "MarkHazard index a k (hazard_pointer_list s) (GetInstance s t) = Inr (l', rc', es)"
        and s': "s' = s\<lparr>hazard_pointer_list := l', reclaimers := (reclaimers s)(t := Some rc'),
                   history := history s @ map (Pair t) es\<rparr>"
      by (rule commit_Inr)
    from reg GetInstance_ok [OF ok] res have "step_ok (hazard_pointer_list s) (GetInstance s t) l' rc'"
      by (rule MarkHazard_step)
    with ok show ?thesis unfolding s' by (rule commit_ok)
  next
    case (CallGetHazardPtr t index k)
    let ?g = "GetHazardPtr index k (hazard_pointer_list s) (GetInstance s t)"
    from CallGetHazardPtr ex
    have "commit s t (case ?g of Inl e \<Rightarrow> Inl e | Inr (a, res) \<Rightarrow> Inr res) = Inr s'"
      by simp
    then obtain l' rc' es
      where res: "(case ?g of Inl e \<Rightarrow> Inl e | Inr (a, res) \<Rightarrow> Inr res) = Inr (l', rc', es)"
        and s': "s' = s\<lparr>hazard_pointer_list := l', reclaimers := (reclaimers s)(t := Some rc'),
                   history := history s @ map (Pair t) es\<rparr>"
      by (rule commit_Inr)
    from res obtain x where x: "?g = Inr x" by (cases ?g) simp_all
    obtain a y where "x = (a, y)" by (cases x)
    with x res have g: "?g = Inr (a, l', rc', es)" by simp
    from reg GetInstance_ok [OF ok] g have "step_ok (hazard_pointer_list s) (GetInstance s t) l' rc'"
      by (rule GetHazardPtr_step)
    with ok show ?thesis unfolding s' by (rule commit_ok)
  next
    case (CallReclaimLater t a func)
    with ex have "commit s t (ReclaimLater a func (hazard_pointer_list s) (GetInstance s t)) = Inr s'"
      by simp
    then obtain l' rc' es
      where res: "ReclaimLater a func (hazard_pointer_list s) (GetInstance s t) = Inr (l', rc', es)"
        and s': "s' = s\<lparr>hazard_pointer_list := l', reclaimers := (reclaimers s)(t := Some rc'),
                   history := history s @ map (Pair t) es\<rparr>"
      by (rule commit_Inr)
    from reg GetInstance_ok [OF ok] res have "step_ok (hazard_pointer_list s) (GetInstance s t) l' rc'"
      by (rule ReclaimLater_step)
    with ok show ?thesis unfolding s' by (rule commit_ok)
  next
    case (CallReclaimNoHazardPointer t)
    with ex have "commit s t (ReclaimNoHazardPointer (hazard_pointer_list s) (GetInstance s t)) = Inr s'"
      by simp
    then obtain l' rc' es
      where res: "ReclaimNoHazardPointer (hazard_pointer_list s) (GetInstance s t) = Inr (l', rc', es)"
        and s': "s' = s\<lparr>hazard_pointer_list := l', reclaimers := (reclaimers s)(t := Some rc'),
                   history := history s @ map (Pair t) es\<rparr>"
      by (rule commit_Inr)
    from reg GetInstance_ok [OF ok] res have "step_ok (hazard_pointer_list s) (GetInstance s t) l' rc'"
      by (rule ReclaimNoHazardPointer_step)
    with ok show ?thesis unfolding s' by (rule commit_ok)
  qed
qed

lemma system_ok_history [simp]: "system_ok (s\<lparr>history := h\<rparr>) = system_ok s"
  by (simp add: system_ok_def)

lemma system_ok_log_events [simp]: "system_ok (log_events t es s) = system_ok s"
  by (simp add: log_events_def)

lemma hand_over_ok:
  assumes ok: "system_ok s" and rc: "reclaimers s t = Some rc"
    and ho: "hand_over (hazard_pointers rc) (slots (hazard_pointer_list s)) = Inr (sl', es)"
  shows "system_ok (s\<lparr>hazard_pointer_list := (hazard_pointer_list s)\<lparr>slots := sl'\<rparr>,
                       reclaimers := (reclaimers s)(t := None), history := h\<rparr>)"
proof -
  let ?l = "hazard_pointer_list s"
  let ?l' = "?l\<lparr>slots := sl'\<rparr>"
  let ?hps = "hazard_pointers rc"
  from hand_over_Inr [OF ho]
  have sl': "sl' = fold (\<lambda>hp. hp_update (\<lambda>p. p\<lparr>flag := False\<rparr>) hp) ?hps (slots ?l)"
    and null: "\<forall>hp\<in>set ?hps. \<exists>p. hp_at (slots ?l) hp = Some p \<and> ptr p = nullptr"
    by simp_all
  have at: "hp_at sl' r = (if r \<in> set ?hps then map_option (\<lambda>p. p\<lparr>flag := False\<rparr>) (hp_at (slots ?l) r)
                           else hp_at (slots ?l) r)" for r
    unfolding sl' by (rule hp_at_released)
  from ok have reg: "registry_ok ?l" by (simp add: system_ok_def)
  then have idle: "\<forall>h p. hp_at (slots ?l) h = Some p \<longrightarrow> \<not> flag p \<longrightarrow> ptr p = nullptr"
    unfolding registry_ok_def idle_null_iff by blast
  have "registry_ok ?l'"
    unfolding registry_ok_def idle_null_iff
  proof (intro conjI allI impI)
    from reg have "length sl' \<noteq> 0" by (simp add: sl' registry_ok_def)
    then show "slots ?l' \<noteq> []" by simp
    from reg show "size_count ?l' + 1 = length (slots ?l')" by (simp add: sl' registry_ok_def)
  next
    fix r q assume q: "hp_at (slots ?l') r = Some q" "\<not> flag q"
    show "ptr q = nullptr"
    proof (cases "r \<in> set ?hps")
      case True
      with null obtain p where "hp_at (slots ?l) r = Some p" "ptr p = nullptr" by blast
      with q(1) True at [of r] show ?thesis by auto
    next
      case False
      with q at [of r] idle show ?thesis by simp
    qed
  qed
  moreover have "owned_ok (slots ?l') rc2" if t2: "t2 \<noteq> t" "reclaimers s t2 = Some rc2" for t2 rc2
  proof -
    from ok t2 have own2: "owned_ok (slots ?l) rc2" unfolding system_ok_def by blast
    from ok t2 rc have dis: "set (hazard_pointers rc2) \<inter> set ?hps = {}"
      unfolding system_ok_def by blast
    have "\<forall>r\<in>set (hazard_pointers rc2). \<exists>p. hp_at (slots ?l') r = Some p \<and> flag p"
    proof
      fix r assume r: "r \<in> set (hazard_pointers rc2)"
      with dis have "r \<notin> set ?hps" by blast
      moreover from own2 r obtain p where "hp_at (slots ?l) r = Some p" "flag p"
        by (auto simp: owned_ok_def)
      ultimately show "\<exists>p. hp_at (slots ?l') r = Some p \<and> flag p" using at [of r] by simp
    qed
    with own2 show ?thesis by (simp add: owned_ok_def)
  qed
  moreover from ok have "\<forall>ta tb rca rcb. ta \<noteq> tb \<and> reclaimers s ta = Some rca \<and> reclaimers s tb = Some rcb \<longrightarrow>
           set (hazard_pointers rca) \<inter> set (hazard_pointers rcb) = {}"
    by (simp add: system_ok_def)
  ultimately show ?thesis
    unfolding system_ok_def by (auto split: if_splits)
qed

lemma exec_ok:
  assumes ok: "system_ok s" and ex: "exec c s = Some (Inr s')"
  shows "system_ok s'"
proof (cases c)
  case (Call c')
  with ok ex show ?thesis by (simp add: exec_call_ok)
next
  case (ThreadExit t sched)
  with ex have "Reclaimer_dtor t sched s = Some (Inr s')" by simp
  then show ?thesis using ok
  proof (rule Reclaimer_dtor_inv)
    fix rc sl' es
    assume "reclaimers s t = Some rc"
      and "hand_over (hazard_pointers rc) (slots (hazard_pointer_list s)) = Inr (sl', es)"
    with ok show "system_ok (s\<lparr>hazard_pointer_list := (hazard_pointer_list s)\<lparr>slots := sl'\<rparr>,
        reclaimers := (reclaimers s)(t := None), history := history s @ map (Pair t) es\<rparr>)"
      by (rule hand_over_ok)
  qed (simp_all add: exec_call_ok)
qed

lemma run_ok: "system_ok s \<Longrightarrow> run cs s = Some (Inr s') \<Longrightarrow> system_ok s'"
  using run_inv [where I = system_ok] exec_ok by blast

lemma reachable_ok: "run cs system_init = Some (Inr s) \<Longrightarrow> system_ok s"
  using system_init_ok by (rule run_ok)

section \<open>The size never decreases\<close>

lemma exec_call_size:
  assumes ex: "exec_call c s = Inr s'"
  shows "size_count (hazard_pointer_list s) \<le> size_count (hazard_pointer_list s')"
proof (cases c)
  case (CallMarkHazard t index a k)
  with ex have "commit s t (MarkHazard index a k (hazard_pointer_list s) (GetInstance s t)) = Inr s'"
    by simp
  then obtain l' rc' es
    where "MarkHazard index a k (hazard_pointer_list s) (GetInstance s t) = Inr (l', rc', es)"
      and "s' = s\<lparr>hazard_pointer_list := l', reclaimers := (reclaimers s)(t := Some rc'),
                 history := history s @ map (Pair t) es\<rparr>"
    by (rule commit_Inr)
  then show ?thesis using MarkHazard_size by fastforce
next
  case (CallGetHazardPtr t index k)
  let ?g = "GetHazardPtr index k (hazard_pointer_list s) (GetInstance s t)"
  from CallGetHazardPtr ex
  have "commit s t (case ?g of Inl e \<Rightarrow> Inl e | Inr (a, res) \<Rightarrow> Inr res) = Inr s'"
    by simp
  then obtain l' rc' es
    where res: "(case ?g of Inl e \<Rightarrow> Inl e | Inr (a, res) \<Rightarrow> Inr res) = Inr (l', rc', es)"
      and s': "s' = s\<lparr>hazard_pointer_list := l', reclaimers := (reclaimers s)(t := Some rc'),
                 history := history s @ map (Pair t) es\<rparr>"
    by (rule commit_Inr)
  from res obtain x where x: "?g = Inr x" by (cases ?g) simp_all
  obtain a y where "x = (a, y)" by (cases x)
  with x res have "?g = Inr (a, l', rc', es)" by simp
  then have "size_count (hazard_pointer_list s) \<le> size_count l'" by (rule GetHazardPtr_size)
  then show ?thesis by (simp add: s')
next
  case (CallReclaimLater t a func)
  with ex have "commit s t (ReclaimLater a func (hazard_pointer_list s) (GetInstance s t)) = Inr s'"
    by simp
  then obtain l' rc' es
    where "ReclaimLater a func (hazard_pointer_list s) (GetInstance s t) = Inr (l', rc', es)"
      and "s' = s\<lparr>hazard_pointer_list := l', reclaimers := (reclaimers s)(t := Some rc'),
                 history := history s @ map (Pair t) es\<rparr>"
    by (rule commit_Inr)
  then show ?thesis using ReclaimLater_list by fastforce
next
  case (CallReclaimNoHazardPointer t)
  with ex have "commit s t (ReclaimNoHazardPointer (hazard_pointer_list s) (GetInstance s t)) = Inr s'"
    by simp
  then obtain l' rc' es
    where "ReclaimNoHazardPointer (hazard_pointer_list s) (GetInstance s t) = Inr (l', rc', es)"
      and "s' = s\<lparr>hazard_pointer_list := l', reclaimers := (reclaimers s)(t := Some rc'),
                 history := history s @ map (Pair t) es\<rparr>"
    by (rule commit_Inr)
  then show ?thesis using ReclaimNoHazardPointer_list by fastforce
qed

lemma exec_size:
  assumes ex: "exec c s = Some (Inr s')"
  shows "size_count (hazard_pointer_list s) \<le> size_count (hazard_pointer_list s')"
proof (cases c)
  case (Call c')
  with ex show ?thesis by (simp add: exec_call_size)
next
  case (ThreadExit t sched)
  let ?I = "\<lambda>s0. size_count (hazard_pointer_list s) \<le> size_count (hazard_pointer_list s0)"
  from ThreadExit ex have "Reclaimer_dtor t sched s = Some (Inr s')" by simp
  then show ?thesis
  proof (rule Reclaimer_dtor_inv [where I = ?I])
    show "?I s" by simp
  next
    fix c s0 s1 assume "?I s0" "exec_call c s0 = Inr s1"
    then show "?I s1" using exec_call_size [of c s0 s1] by simp
  qed simp_all
qed

text \<open>
  C8. Over any sequence of calls of any threads (publishing, reading, deferring, scanning,
  thread exit, with whatever the other threads do while it waits) that runs to its end from any state, \<^verbatim>\<open>get_size\<close> at the end is at least
  what it was at the start; a single call is a sequence of one. The only write to
  \<^verbatim>\<open>size\<close> is the increment in \<^verbatim>\<open>TryAcquireHazardPointer\<close>.
\<close>

theorem size_never_decreases:
  "run cs s = Some (Inr s') \<Longrightarrow>
     get_size (hazard_pointer_list s) \<le> get_size (hazard_pointer_list s')"
proof (induction cs arbitrary: s)
  case Nil
  then show ?case by simp
next
  case (Cons c cs)
  from Cons.prems obtain s1 where e: "exec c s = Some (Inr s1)" and r: "run cs s1 = Some (Inr s')"
    by (cases "exec c s") (auto split: sum.splits)
  from e have "size_count (hazard_pointer_list s) \<le> size_count (hazard_pointer_list s1)"
    by (rule exec_size)
  with Cons.IH [OF r] show ?case by (simp add: get_size_def)
qed

section \<open>No destroyer is called on a published address\<close>









lemma quiet_claim_trace [simp]: "quiet (claim_trace sl)"
  by (induction sl) (auto simp: quiet_def)

lemma quiet_cas_loop [simp]: "quiet (cas_loop k)"
  by (induction k) (auto simp: quiet_def)

lemma quiet_scan_trace [simp]: "quiet (scan_trace sl)"
  by (induction sl) (auto simp: quiet_def)

lemma quiet_simps [simp]:
  "quiet (NewSlot hp # es) = quiet es" "quiet (TestAndSet hp # es) = quiet es"
  "quiet (FetchAddSize # es) = quiet es" "quiet (LoadPtr hp # es) = quiet es"
  "quiet (Clear hp # es) = quiet es" "quiet (Yield # es) = quiet es"
  by (simp_all add: quiet_def)

lemma ptr_of_flag [simp]: "ptr_of (hp_update (\<lambda>p. p\<lparr>flag := b\<rparr>) hp sl) = ptr_of sl"
proof
  fix r show "ptr_of (hp_update (\<lambda>p. p\<lparr>flag := b\<rparr>) hp sl) r = ptr_of sl r"
    by (cases "hp_at sl r") (auto simp: ptr_of_def hp_at_hp_update)
qed

lemma ptr_of_new [simp]: "ptr_of (\<lparr>flag = b, ptr = nullptr\<rparr> # sl) = ptr_of sl"
proof
  fix r show "ptr_of (\<lparr>flag = b, ptr = nullptr\<rparr> # sl) r = ptr_of sl r"
    by (cases "r = length sl") (auto simp: ptr_of_def hp_at_None_iff [THEN iffD2] split: option.splits)
qed


lemma ptr_of_released [simp]:
  "ptr_of (fold (\<lambda>hp. hp_update (\<lambda>p. p\<lparr>flag := False\<rparr>) hp) hps sl) = ptr_of sl"
  by (induction hps arbitrary: sl) simp_all


















section \<open>What the destructor does\<close>

lemma acts_of_append [simp]: "acts_of t (h @ h') = acts_of t h @ acts_of t h'"
  by (simp add: acts_of_def)

lemma acts_of_Nil [simp]: "acts_of t [] = []"
  by (simp add: acts_of_def)

lemma acts_of_other: "t' \<noteq> t \<Longrightarrow> acts_of t (map (Pair t') es) = []"
  by (induction es) (simp_all add: acts_of_def)

lemma acts_of_own: "acts_of t (map (Pair t) es) = filter (\<lambda>e. \<not> inert e) es"
  by (induction es) (simp_all add: acts_of_def)

lemma filter_inert: "\<forall>e\<in>set es. inert e \<Longrightarrow> filter (\<lambda>e. \<not> inert e) es = []"
  by (induction es) simp_all

lemma exec_call_other:
  assumes "exec_call c s = Inr s'" and "call_tid c \<noteq> t"
  shows "reclaimers s' t = reclaimers s t \<and> (\<exists>es. history s' = history s @ map (Pair (call_tid c)) es)"
  using assms by (cases c) (auto elim!: commit_Inr)

text \<open>
  While thread \<open>t\<close> waits it only loads and yields, and the calls of the other threads leave
  its Reclaimer alone.
\<close>

lemma wait_no_hazard_own:
  assumes w: "wait_no_hazard t a sched s = Some (Inr (sched', s'))"
    and others: "\<forall>cs\<in>set sched. \<forall>c\<in>set cs. call_tid c \<noteq> t"
  shows "reclaimers s' t = reclaimers s t
    \<and> (\<exists>h. history s' = history s @ h \<and> acts_of t h = [])
    \<and> \<not> Hazard (slots (hazard_pointer_list s')) a
    \<and> (\<forall>cs\<in>set sched'. \<forall>c\<in>set cs. call_tid c \<noteq> t)"
proof -
  define I where "I = (\<lambda>s0 :: system. reclaimers s0 t = reclaimers s t
      \<and> (\<exists>h. history s0 = history s @ h \<and> acts_of t h = []))"
  have "I s' \<and> \<not> Hazard (slots (hazard_pointer_list s')) a
      \<and> (\<forall>cs\<in>set sched'. \<forall>c\<in>set cs. call_tid c \<noteq> t)"
  proof (rule wait_no_hazard_inv_on [where C = "\<lambda>c. call_tid c \<noteq> t" and I = I, OF w _ others])
    show "I s" by (simp add: I_def)
  next
    fix c s0 s1
    assume c: "call_tid c \<noteq> t" and i: "I s0" and e: "exec_call c s0 = Inr s1"
    from exec_call_other [OF e c] obtain es where r: "reclaimers s1 t = reclaimers s0 t"
      and h: "history s1 = history s0 @ map (Pair (call_tid c)) es" by blast
    from i obtain h0 where "history s0 = history s @ h0" "acts_of t h0 = []"
      by (auto simp: I_def)
    with h c have "history s1 = history s @ (h0 @ map (Pair (call_tid c)) es)
        \<and> acts_of t (h0 @ map (Pair (call_tid c)) es) = []"
      by (simp add: acts_of_other)
    then have "\<exists>h. history s1 = history s @ h \<and> acts_of t h = []" by (rule exI)
    with r i show "I s1" by (simp add: I_def)
  next
    fix s0 es
    assume i: "I s0" and q: "\<forall>e\<in>set es. inert e"
    from i obtain h0 where h0: "history s0 = history s @ h0" "acts_of t h0 = []"
      by (auto simp: I_def)
    from q have "acts_of t (map (Pair t) es) = []" by (simp add: acts_of_own filter_inert)
    with h0 have "history (log_events t es s0) = history s @ (h0 @ map (Pair t) es)
        \<and> acts_of t (h0 @ map (Pair t) es) = []"
      by simp
    then have "\<exists>h. history (log_events t es s0) = history s @ h \<and> acts_of t h = []" by (rule exI)
    with i show "I (log_events t es s0)" by (simp add: I_def)
  qed
  then show ?thesis by (simp add: I_def)
qed

text \<open>
  The second loop, entry after entry: the destroyer of an entry is called in a state in which
  no slot of the chain holds its key, reached by the wait.
\<close>

lemma drain_Cons_Inr:
  assumes "drain t ((a, node) # m) sched s = Some (Inr s')"
  obtains sched1 s1 f where "wait_no_hazard t a sched s = Some (Inr (sched1, s1))"
    and "delete_func node = Some f"
    and "drain t m sched1 (log_events t [Invoke f (node_ptr node)] s1) = Some (Inr s')"
proof -
  from assms obtain x where w: "wait_no_hazard t a sched s = Some (Inr x)"
    by (cases "wait_no_hazard t a sched s") (auto split: sum.splits)
  obtain sched1 s1 where x: "x = (sched1, s1)" by (cases x)
  from assms w x obtain f where "delete_func node = Some f"
    and "drain t m sched1 (log_events t [Invoke f (node_ptr node)] s1) = Some (Inr s')"
    by (cases "delete_func node") simp_all
  with w x that show ?thesis by simp
qed

lemma drain_own:
  assumes "drain t m sched s = Some (Inr s')"
    and "\<forall>cs\<in>set sched. \<forall>c\<in>set cs. call_tid c \<noteq> t"
  shows "reclaimers s' t = reclaimers s t
    \<and> (\<exists>h. history s' = history s @ h \<and> acts_of t h = map invocation m)"
  using assms
proof (induction m arbitrary: sched s)
  case Nil
  then show ?case by simp
next
  case (Cons e m)
  obtain a node where e: "e = (a, node)" by (cases e)
  from Cons.prems(1) [unfolded e] obtain sched1 s1 f
    where w: "wait_no_hazard t a sched s = Some (Inr (sched1, s1))"
      and f: "delete_func node = Some f"
      and rest: "drain t m sched1 (log_events t [Invoke f (node_ptr node)] s1) = Some (Inr s')"
    by (rule drain_Cons_Inr)
  from wait_no_hazard_own [OF w Cons.prems(2)] obtain h1
    where r1: "reclaimers s1 t = reclaimers s t"
      and h1: "history s1 = history s @ h1" "acts_of t h1 = []"
      and others1: "\<forall>cs\<in>set sched1. \<forall>c\<in>set cs. call_tid c \<noteq> t"
    by blast
  from Cons.IH [OF rest others1] obtain h2
    where r2: "reclaimers s' t = reclaimers s1 t"
      and h2: "history s' = history s1 @ (t, Invoke f (node_ptr node)) # h2"
        "acts_of t h2 = map invocation m"
    by auto
  from h1 h2 e f have "history s' = history s @ (h1 @ (t, Invoke f (node_ptr node)) # h2)
      \<and> acts_of t (h1 @ (t, Invoke f (node_ptr node)) # h2) = map invocation (e # m)"
    by (simp add: acts_of_def invocation_def)
  then have "\<exists>h. history s' = history s @ h \<and> acts_of t h = map invocation (e # m)" by (rule exI)
  with r1 r2 show ?case by simp
qed

lemma hand_over_acts:
  "hand_over hps sl = Inr (sl', es) \<Longrightarrow> filter (\<lambda>e. \<not> inert e) es = map Clear hps"
proof (induction hps arbitrary: sl es)
  case Nil
  then show ?case by simp
next
  case (Cons hp hps)
  from Cons.prems obtain p where p: "hp_at sl hp = Some p" "ptr p = nullptr"
    by (cases "hp_at sl hp") (auto split: if_splits)
  let ?sl = "hp_update (\<lambda>p. p\<lparr>flag := False\<rparr>) hp sl"
  from Cons.prems p obtain es' where r: "hand_over hps ?sl = Inr (sl', es')"
    and es: "es = LoadPtr hp # Clear hp # es'"
    by (cases "hand_over hps ?sl") auto
  from Cons.IH [OF r] es show ?case by simp
qed

text \<open>
  The destructor of thread \<open>t\<close> when it returns, whatever the other threads do while it waits:
  the thread has no Reclaimer left, and apart from loads and yields it has cleared the flag of
  each slot it had acquired and then called the destroyer of each entry of the map once, in
  the order of the map. The size threshold plays no part.
\<close>

lemma Reclaimer_dtor_drains:
  assumes d: "Reclaimer_dtor t sched s = Some (Inr s')"
    and rc: "reclaimers s t = Some rc"
    and others: "\<forall>cs\<in>set sched. \<forall>c\<in>set cs. call_tid c \<noteq> t"
  shows "reclaimers s' t = None
    \<and> (\<exists>h. history s' = history s @ h
          \<and> acts_of t h = map Clear (hazard_pointers rc) @ map invocation (reclaim_map rc))"
proof -
  from d rc obtain x where x: "hand_over (hazard_pointers rc) (slots (hazard_pointer_list s)) = Inr x"
    by (cases "hand_over (hazard_pointers rc) (slots (hazard_pointer_list s))")
      (simp_all add: Reclaimer_dtor_def)
  obtain sl' es where h: "hand_over (hazard_pointers rc) (slots (hazard_pointer_list s)) = Inr (sl', es)"
    using x by (cases x) simp
  let ?s = "s\<lparr>hazard_pointer_list := (hazard_pointer_list s)\<lparr>slots := sl'\<rparr>,
             reclaimers := (reclaimers s)(t := None), history := history s @ map (Pair t) es\<rparr>"
  from d rc h have "drain t (reclaim_map rc) sched ?s = Some (Inr s')"
    by (simp add: Reclaimer_dtor_def)
  from drain_own [OF this others] obtain h2
    where r: "reclaimers s' t = None"
      and h2: "history s' = history s @ map (Pair t) es @ h2" "acts_of t h2 = map invocation (reclaim_map rc)"
    by auto
  from hand_over_acts [OF h] h2
  have "history s' = history s @ (map (Pair t) es @ h2)
      \<and> acts_of t (map (Pair t) es @ h2) = map Clear (hazard_pointers rc) @ map invocation (reclaim_map rc)"
    by (simp add: acts_of_own)
  then have "\<exists>h. history s' = history s @ h
      \<and> acts_of t h = map Clear (hazard_pointers rc) @ map invocation (reclaim_map rc)" by (rule exI)
  with r show ?thesis by simp
qed

text \<open>A slot that still publishes a pointer stops the destructor at its assertion.\<close>

lemma Reclaimer_dtor_asserts:
  assumes "reclaimers s t = Some rc"
    and "\<forall>hp\<in>set (hazard_pointers rc). hp < length (slots (hazard_pointer_list s))"
    and "\<exists>hp\<in>set (hazard_pointers rc). \<exists>p. hp_at (slots (hazard_pointer_list s)) hp = Some p \<and> ptr p \<noteq> nullptr"
  shows "Reclaimer_dtor t sched s = Some (Inl AssertionFailed)"
  using assms hand_over_asserts [OF assms(2,3)] by (simp add: Reclaimer_dtor_def)

text \<open>
  When no slot holds the key of any entry, the second loop does not wait, whatever the other
  threads were going to do: for each entry it reads the whole chain and calls the destroyer.
\<close>

lemma log_events_log_events [simp]:
  "log_events t es' (log_events t es s) = log_events t (es @ es') s"
  by (simp add: log_events_def)

lemma drain_no_wait:
  assumes "slots (hazard_pointer_list s) \<noteq> []"
    and "\<forall>e\<in>set m. \<not> Hazard (slots (hazard_pointer_list s)) (fst e) \<and> delete_func (snd e) \<noteq> None"
  shows "drain t m sched s =
    Some (Inr (log_events t
      (concat (map (\<lambda>e. Hazard_trace (slots (hazard_pointer_list s)) (fst e) @ [invocation e]) m)) s))"
  using assms
proof (induction m arbitrary: s)
  case Nil
  then show ?case by (simp add: log_events_def)
next
  case (Cons e m)
  obtain a node where e: "e = (a, node)" by (cases e)
  let ?sl = "slots (hazard_pointer_list s)"
  from Cons.prems e obtain f where f: "delete_func node = Some f" by auto
  from Cons.prems e have w: "wait_no_hazard t a sched s = Some (Inr (sched, log_events t (Hazard_trace ?sl a) s))"
    by (simp add: wait_no_hazard_done)
  let ?s1 = "log_events t (Hazard_trace ?sl a @ [Invoke f (node_ptr node)]) s"
  from Cons.prems have "drain t m sched ?s1 =
    Some (Inr (log_events t
      (concat (map (\<lambda>e. Hazard_trace (slots (hazard_pointer_list ?s1)) (fst e) @ [invocation e]) m)) ?s1))"
    by (intro Cons.IH) simp_all
  with w f e show ?case by (simp add: invocation_def)
qed

section \<open>The example runs\<close>

lemmas call_defs =
  commit_def MarkHazard_def GetHazardPtr_def ReclaimLater_def ReclaimNoHazardPointer_def
  TryAcquireHazardPointer_def acquired_slot_def GetInstance_def Reclaimer_dtor_def log_events_def
  map_insert_def Push_def to_size_t_def get_size_def kCoefficient_def
  system_init_def HazardPointerList_ctor_def HazardPointer_ctor_def Reclaimer_ctor_def
  ReclaimPool_ctor_def ReclaimNode_ctor_def Let_def wait_no_hazard_done wait_no_hazard_yield

lemma run_ex_calls_reuse: "run ex_calls_reuse system_init = Some (Inr ex_system_reuse)"
  by (simp add: ex_calls_reuse_def ex_system_reuse_def call_defs fun_eq_iff)

lemma run_ex_reacquired:
  "run [Call (CallMarkHazard 1 0 8 0)] ex_system_reuse = Some (Inr ex_system_reacquired)"
  by (simp add: ex_system_reacquired_def ex_system_reuse_def call_defs fun_eq_iff)


text \<open>C8 on the first two example runs: a thread ends and another takes a slot over.\<close>

theorem size_never_decreases_witness:
  "run ex_calls_reuse system_init = Some (Inr ex_system_reuse)
   \<and> get_size (hazard_pointer_list system_init) \<le> get_size (hazard_pointer_list ex_system_reuse)
   \<and> run [Call (CallMarkHazard 1 0 8 0)] ex_system_reuse = Some (Inr ex_system_reacquired)
   \<and> get_size (hazard_pointer_list ex_system_reuse) \<le> get_size (hazard_pointer_list ex_system_reacquired)"
  using size_never_decreases [OF run_ex_calls_reuse] size_never_decreases [OF run_ex_reacquired]
    run_ex_calls_reuse run_ex_reacquired
  by simp

section \<open>The size and the number of slots\<close>

lemma size_count_reachable:
  assumes "run cs system_init = Some (Inr s)"
  shows "get_size (hazard_pointer_list s) + 1 = length (slots (hazard_pointer_list s))"
  using reachable_ok [OF assms] by (simp add: system_ok_def registry_ok_def get_size_def)

text \<open>
  C7. \<^verbatim>\<open>size\<close> is not the number of slots created: the constructor creates the first
  slot and does not count it. A new registry has one slot and size 0; after the first example
  run it has two slots and size 1. In every reachable state the size is the number of slots
  less one (\<open>size_count_reachable\<close>).
\<close>

theorem size_misses_first_slot:
  "get_size HazardPointerList_ctor = 0 \<and> length (slots HazardPointerList_ctor) = 1
   \<and> run ex_calls_reuse system_init = Some (Inr ex_system_reuse)
   \<and> get_size (hazard_pointer_list ex_system_reuse) = 1
   \<and> length (slots (hazard_pointer_list ex_system_reuse)) = 2"
  using run_ex_calls_reuse
  by (simp add: get_size_def HazardPointerList_ctor_def ex_system_reuse_def)

section \<open>First use by a load\<close>

text \<open>
  C10. In every state reached from a new registry, \<^verbatim>\<open>GetHazardPtr\<close> on the first
  index not yet in use of a thread acquires a slot by the same call of
  \<^verbatim>\<open>TryAcquireHazardPointer\<close> as \<^verbatim>\<open>MarkHazard\<close> makes, with the same registry and
  the same acquired slots after it but for the pointer \<^verbatim>\<open>MarkHazard\<close> stores, and it
  returns the null pointer: a slot with a clear flag publishes none, and a new slot publishes
  none.
\<close>

theorem GetHazardPtr_first_use:
  assumes reach: "run cs system_init = Some (Inr s)"
    and first_use: "to_size_t index = length (hazard_pointers (GetInstance s t))"
  shows "\<exists>l' rc' es hp.
      TryAcquireHazardPointer index k (hazard_pointer_list s) (GetInstance s t) = Inr (l', rc', es)
    \<and> hazard_pointers rc' = hazard_pointers (GetInstance s t) @ [hp]
    \<and> GetHazardPtr index k (hazard_pointer_list s) (GetInstance s t)
        = Inr (nullptr, l', rc', es @ [LoadPtr hp])
    \<and> MarkHazard index a k (hazard_pointer_list s) (GetInstance s t)
        = Inr (l'\<lparr>slots := hp_update (\<lambda>p. p\<lparr>ptr := a\<rparr>) hp (slots l')\<rparr>, rc', es @ [StorePtr hp a])"
proof -
  let ?l = "hazard_pointer_list s"
  let ?rc = "GetInstance s t"
  from reach have "system_ok s" by (rule reachable_ok)
  then have reg: "registry_ok ?l" by (simp add: system_ok_def)
  then have chain: "slots ?l \<noteq> []" by (simp add: registry_ok_def)
  from first_use have le: "to_size_t index \<le> length (hazard_pointers ?rc)" by simp
  from le chain show ?thesis
  proof (cases rule: TryAcquireHazardPointer_cases [where k = k])
    case in_use
    with first_use show ?thesis by simp
  next
    case (reuse hp p)
    let ?sl = "hp_update (\<lambda>p. p\<lparr>flag := True\<rparr>) hp (slots ?l)"
    from reg reuse(2,3) have null: "ptr p = nullptr" by (rule idle_slot_null)
    from reuse(2) have at: "hp_at ?sl hp = Some (p\<lparr>flag := True\<rparr>)"
      by (rule hp_at_hp_update_same)
    with first_use have slot: "acquired_slot index (?l\<lparr>slots := ?sl\<rparr>)
        (?rc\<lparr>hazard_pointers := hazard_pointers ?rc @ [hp]\<rparr>) = Inr hp"
      by (simp add: acquired_slot_def)
    from reuse(4) slot at null
    have "GetHazardPtr index k ?l ?rc =
        Inr (nullptr, ?l\<lparr>slots := ?sl\<rparr>, ?rc\<lparr>hazard_pointers := hazard_pointers ?rc @ [hp]\<rparr>,
             claim_trace (slots ?l) @ [LoadPtr hp])"
      by (simp add: GetHazardPtr_def)
    moreover from reuse(4) slot
    have "MarkHazard index a k ?l ?rc =
        Inr (?l\<lparr>slots := hp_update (\<lambda>p. p\<lparr>ptr := a\<rparr>) hp ?sl\<rparr>,
             ?rc\<lparr>hazard_pointers := hazard_pointers ?rc @ [hp]\<rparr>,
             claim_trace (slots ?l) @ [StorePtr hp a])"
      by (simp add: MarkHazard_def)
    ultimately show ?thesis using reuse(4) by simp
  next
    case alloc
    let ?hp = "length (slots ?l)"
    let ?sl = "\<lparr>flag = True, ptr = nullptr\<rparr> # slots ?l"
    let ?es = "claim_trace (slots ?l) @ [NewSlot ?hp, TestAndSet ?hp, FetchAddSize] @ cas_loop k"
    from first_use have slot: "acquired_slot index (?l\<lparr>slots := ?sl, size_count := size_count ?l + 1\<rparr>)
        (?rc\<lparr>hazard_pointers := hazard_pointers ?rc @ [?hp]\<rparr>) = Inr ?hp"
      by (simp add: acquired_slot_def)
    from alloc(3) slot
    have "GetHazardPtr index k ?l ?rc =
        Inr (nullptr, ?l\<lparr>slots := ?sl, size_count := size_count ?l + 1\<rparr>,
             ?rc\<lparr>hazard_pointers := hazard_pointers ?rc @ [?hp]\<rparr>, ?es @ [LoadPtr ?hp])"
      by (simp add: GetHazardPtr_def)
    moreover from alloc(3) slot
    have "MarkHazard index a k ?l ?rc =
        Inr (?l\<lparr>slots := hp_update (\<lambda>p. p\<lparr>ptr := a\<rparr>) ?hp ?sl, size_count := size_count ?l + 1\<rparr>,
             ?rc\<lparr>hazard_pointers := hazard_pointers ?rc @ [?hp]\<rparr>, ?es @ [StorePtr ?hp a])"
      by (simp add: MarkHazard_def)
    ultimately show ?thesis using alloc(3) by simp
  qed
qed

text \<open>C10 on the state after the first example run, for thread 1.\<close>

theorem GetHazardPtr_first_use_witness:
  "run ex_calls_reuse system_init = Some (Inr ex_system_reuse)
   \<and> to_size_t 0 = length (hazard_pointers (GetInstance ex_system_reuse 1))
   \<and> (\<exists>l' rc' es hp.
      TryAcquireHazardPointer 0 0 (hazard_pointer_list ex_system_reuse) (GetInstance ex_system_reuse 1)
        = Inr (l', rc', es)
    \<and> hazard_pointers rc' = hazard_pointers (GetInstance ex_system_reuse 1) @ [hp]
    \<and> GetHazardPtr 0 0 (hazard_pointer_list ex_system_reuse) (GetInstance ex_system_reuse 1)
        = Inr (nullptr, l', rc', es @ [LoadPtr hp])
    \<and> MarkHazard 0 8 0 (hazard_pointer_list ex_system_reuse) (GetInstance ex_system_reuse 1)
        = Inr (l'\<lparr>slots := hp_update (\<lambda>p. p\<lparr>ptr := 8\<rparr>) hp (slots l')\<rparr>, rc', es @ [StorePtr hp 8]))
   \<and> GetHazardPtr 0 0 (hazard_pointer_list ex_system_reuse) (GetInstance ex_system_reuse 1)
        = Inr (nullptr,
               \<lparr>slots = [\<lparr>flag = True, ptr = nullptr\<rparr>, \<lparr>flag = False, ptr = nullptr\<rparr>], size_count = 1\<rparr>,
               Reclaimer_ctor\<lparr>hazard_pointers := [1]\<rparr>, [TestAndSet 1, LoadPtr 1])"
proof -
  have idx: "to_size_t 0 = length (hazard_pointers (GetInstance ex_system_reuse 1))"
    by (simp add: ex_system_reuse_def call_defs)
  have "GetHazardPtr 0 0 (hazard_pointer_list ex_system_reuse) (GetInstance ex_system_reuse 1)
        = Inr (nullptr,
               \<lparr>slots = [\<lparr>flag = True, ptr = nullptr\<rparr>, \<lparr>flag = False, ptr = nullptr\<rparr>], size_count = 1\<rparr>,
               Reclaimer_ctor\<lparr>hazard_pointers := [1]\<rparr>, [TestAndSet 1, LoadPtr 1])"
    by (simp add: ex_system_reuse_def call_defs)
  with GetHazardPtr_first_use [OF run_ex_calls_reuse idx, of 0 8] run_ex_calls_reuse idx
  show ?thesis by blast
qed

section \<open>The threshold\<close>

text \<open>
  C2. The coefficient of the code is 4, not 4.25: \<^verbatim>\<open>1 / 4\<close> is 0 in \<^verbatim>\<open>int\<close>. Below
  four times the size the call returns at once, with no load and no destroyer called
  (\<open>ReclaimNoHazardPointer_below_threshold\<close>). With four entries pending and size 1, which
  is below 4.25 times the size, the pass runs: both slots are loaded and the four destroyers
  are called.
\<close>

theorem ReclaimNoHazardPointer_scans_at_four:
  "run ex_calls_threshold system_init = Some (Inr ex_system_threshold)
   \<and> reclaimers ex_system_threshold 0 = Some ex_reclaimer_threshold
   \<and> length (reclaim_map ex_reclaimer_threshold) = 4
   \<and> get_size (hazard_pointer_list ex_system_threshold) = 1
   \<and> \<not> spec_threshold_met (length (reclaim_map ex_reclaimer_threshold))
          (get_size (hazard_pointer_list ex_system_threshold))
   \<and> ReclaimNoHazardPointer (hazard_pointer_list ex_system_threshold) ex_reclaimer_threshold
       = Inr (hazard_pointer_list ex_system_threshold,
              ex_reclaimer_threshold
                \<lparr>reclaim_map := [],
                 reclaim_pool := [\<lparr>node_ptr = 14, delete_func = Some 4\<rparr>, \<lparr>node_ptr = 13, delete_func = Some 3\<rparr>,
                                  \<lparr>node_ptr = 12, delete_func = Some 2\<rparr>, \<lparr>node_ptr = 11, delete_func = Some 1\<rparr>,
                                  ReclaimNode_ctor]\<rparr>,
              [LoadPtr 1, LoadPtr 0, Invoke 1 11, Invoke 2 12, Invoke 3 13, Invoke 4 14])"
proof -
  have "run ex_calls_threshold system_init = Some (Inr ex_system_threshold)"
    by (simp add: ex_calls_threshold_def ex_system_threshold_def ex_reclaimer_threshold_def
        call_defs fun_eq_iff)
  moreover have "ReclaimNoHazardPointer (hazard_pointer_list ex_system_threshold) ex_reclaimer_threshold
       = Inr (hazard_pointer_list ex_system_threshold,
              ex_reclaimer_threshold
                \<lparr>reclaim_map := [],
                 reclaim_pool := [\<lparr>node_ptr = 14, delete_func = Some 4\<rparr>, \<lparr>node_ptr = 13, delete_func = Some 3\<rparr>,
                                  \<lparr>node_ptr = 12, delete_func = Some 2\<rparr>, \<lparr>node_ptr = 11, delete_func = Some 1\<rparr>,
                                  ReclaimNode_ctor]\<rparr>,
              [LoadPtr 1, LoadPtr 0, Invoke 1 11, Invoke 2 12, Invoke 3 13, Invoke 4 14])"
    by (simp add: ex_system_threshold_def ex_reclaimer_threshold_def call_defs)
  ultimately show ?thesis
    by (simp add: ex_system_threshold_def ex_reclaimer_threshold_def spec_threshold_met_def get_size_def)
qed

section \<open>Destroyers and publications: the examples\<close>


text \<open>
  With no call of another thread between its loops, the pass taken in two parts is the pass.
\<close>

lemma ReclaimNoHazardPointer_racing_alone:
  "ReclaimNoHazardPointer_racing t [] s = exec_call (CallReclaimNoHazardPointer t) s"
  by (cases "reclaim_loop (not_allow_delete_set (slots (hazard_pointer_list s)))
        (reclaim_map (GetInstance s t)) (reclaim_pool (GetInstance s t))")
    (auto simp: ReclaimNoHazardPointer_racing_def ReclaimNoHazardPointer_def commit_def Let_def
      log_events_def)


section \<open>The destructor and a pending null pointer\<close>

text \<open>
  C4. \<^verbatim>\<open>Hazard\<close> has no test for the null pointer, which the scan has. Thread 0 publishes
  nothing in its slot, defers the null pointer and ends, with no other thread. No slot
  publishes an address and the assertion of the first loop holds; the flag is cleared; yet
  \<^verbatim>\<open>Hazard(nullptr)\<close> holds for the empty slot, so the second loop waits for ever: the
  destroyer is not called and the destructor never returns. In the same state
  \<^verbatim>\<open>ReclaimNoHazardPointer\<close> calls the destroyer of that entry and erases it, and with
  address 9 deferred in place of the null pointer the destructor reads the slot once, calls
  the destroyer and returns.
\<close>

theorem Reclaimer_dtor_null_key:
  "run [Call (CallMarkHazard 0 0 nullptr 0), Call (CallReclaimLater 0 nullptr (Some 1))] system_init
     = Some (Inr ex_system_null)
   \<and> published_addresses (slots (hazard_pointer_list ex_system_null)) = {}
   \<and> hand_over [0] (slots (hazard_pointer_list ex_system_null))
       = Inr ([\<lparr>flag = False, ptr = nullptr\<rparr>], [LoadPtr 0, Clear 0])
   \<and> Hazard [\<lparr>flag = False, ptr = nullptr\<rparr>] nullptr
   \<and> run [ThreadExit 0 []] ex_system_null = None
   \<and> run [Call (CallReclaimNoHazardPointer 0)] ex_system_null =
       Some (Inr (ex_system_null
         \<lparr>reclaimers := (\<lambda>t. None)
            (0 := Some \<lparr>hazard_pointers = [0], reclaim_map = [],
                        reclaim_pool = [\<lparr>node_ptr = nullptr, delete_func = Some 1\<rparr>, ReclaimNode_ctor]\<rparr>),
          history := history ex_system_null @ [(0, LoadPtr 0), (0, Invoke 1 nullptr)]\<rparr>))
   \<and> run [Call (CallMarkHazard 0 0 nullptr 0), Call (CallReclaimLater 0 9 (Some 1)), ThreadExit 0 []]
         system_init
     = Some (Inr \<lparr>hazard_pointer_list = \<lparr>slots = [\<lparr>flag = False, ptr = nullptr\<rparr>], size_count = 0\<rparr>,
                  reclaimers = (\<lambda>t. None),
                  history = map (Pair 0)
                    [TestAndSet 0, StorePtr 0 nullptr, LoadPtr 0, Clear 0, LoadPtr 0, Invoke 1 9]\<rparr>)"
proof -
  have "run [Call (CallMarkHazard 0 0 nullptr 0), Call (CallReclaimLater 0 nullptr (Some 1))] system_init
     = Some (Inr ex_system_null)"
    by (simp add: ex_system_null_def call_defs fun_eq_iff)
  moreover have "published_addresses (slots (hazard_pointer_list ex_system_null)) = {}"
    by (auto simp: published_addresses_def ex_system_null_def)
  moreover have "hand_over [0] (slots (hazard_pointer_list ex_system_null))
       = Inr ([\<lparr>flag = False, ptr = nullptr\<rparr>], [LoadPtr 0, Clear 0])"
    by (simp add: ex_system_null_def)
  moreover have "Hazard [\<lparr>flag = False, ptr = nullptr\<rparr>] nullptr"
    by simp
  moreover have "run [ThreadExit 0 []] ex_system_null = None"
    by (simp add: ex_system_null_def Reclaimer_dtor_def wait_no_hazard_alone)
  moreover have "run [Call (CallReclaimNoHazardPointer 0)] ex_system_null =
       Some (Inr (ex_system_null
         \<lparr>reclaimers := (\<lambda>t. None)
            (0 := Some \<lparr>hazard_pointers = [0], reclaim_map = [],
                        reclaim_pool = [\<lparr>node_ptr = nullptr, delete_func = Some 1\<rparr>, ReclaimNode_ctor]\<rparr>),
          history := history ex_system_null @ [(0, LoadPtr 0), (0, Invoke 1 nullptr)]\<rparr>))"
    by (simp add: ex_system_null_def call_defs fun_eq_iff)
  moreover have "run [Call (CallMarkHazard 0 0 nullptr 0), Call (CallReclaimLater 0 9 (Some 1)), ThreadExit 0 []]
         system_init
     = Some (Inr \<lparr>hazard_pointer_list = \<lparr>slots = [\<lparr>flag = False, ptr = nullptr\<rparr>], size_count = 0\<rparr>,
                  reclaimers = (\<lambda>t. None),
                  history = map (Pair 0)
                    [TestAndSet 0, StorePtr 0 nullptr, LoadPtr 0, Clear 0, LoadPtr 0, Invoke 1 9]\<rparr>)"
    by (simp add: call_defs fun_eq_iff)
  ultimately show ?thesis by blast
qed

end
